theory Spec2Isabelle
  imports Main "HOL-Library.AList" "HOL-Library.Multiset" "HOL-Library.Word"
begin

section \<open>The store of build-redis\<close>

text \<open>
  The program is the server whose \<^verbatim>\<open>RedisStore\<close> keeps a scalar map with expirations
  and a list map, and appends a record to \<^verbatim>\<open>redisstore.aof\<close> for each scalar write.
  The network listener, the interactive loop and \<^verbatim>\<open>parseCommand\<close> are outside the
  model: the dispatcher \<^verbatim>\<open>processCommand\<close> receives a \<^verbatim>\<open>Command\<close> value.
  The functions are those of the program text in \<^verbatim>\<open>redis_test.go\<close> (after its first
  test); \<^verbatim>\<open>redis.go\<close> is a variant with \<^verbatim>\<open>SET\<close> and \<^verbatim>\<open>GET\<close> only.

  Time is one integer line, in nanoseconds since the zero instant of \<^verbatim>\<open>time.Time\<close>:
  \<^verbatim>\<open>IsZero\<close> is equality with 0, \<^verbatim>\<open>Add\<close> is addition, \<^verbatim>\<open>After\<close> is \<open>>\<close>.
  The mutex is not modelled: every operation below is one critical section.
  Writes to the file are taken to succeed (the source drops their error values), and
  what \<^verbatim>\<open>fmt.Println\<close> prints is not part of the state.
\<close>

subsection \<open>Data\<close>

record StoredValue =
  value' :: string
  expiration :: int

record Command =
  Name :: string
  Args :: "string list"

text \<open>
  \<open>aof\<close> is the sequence of strings this store has handed to \<^verbatim>\<open>aofWriter.WriteString\<close>
  (each followed by a flush), oldest first; the file opened with \<^verbatim>\<open>O_APPEND\<close> then
  holds their concatenation after whatever it held before.
\<close>

record RedisStore =
  data :: "string \<rightharpoonup> StoredValue"
  listData :: "string \<rightharpoonup> string list"
  aof :: "string list"
  writeAOFEnabled :: bool

text \<open>
  What one call of \<^verbatim>\<open>processCommand\<close> takes from outside the store: the reading of
  \<^verbatim>\<open>time.Now()\<close> (read at most once per call) and the order in which \<^verbatim>\<open>range\<close>
  walks a map (at most one map is walked per call). A Go map is an association list
  with distinct keys; \<open>range_order\<close> rearranges its entries.
\<close>

record env =
  now :: int
  range_order :: "(string \<times> string) list \<Rightarrow> (string \<times> string) list"

definition valid_env :: "env \<Rightarrow> bool" where
  "valid_env e \<longleftrightarrow> (\<forall>m. mset (range_order e m) = mset m)"

text \<open>A call returns, panics (index out of range) or ends the process (\<^verbatim>\<open>os.Exit\<close>).\<close>

datatype 'a outcome = Returns 'a RedisStore | Panic RedisStore | Exit RedisStore

fun store_of :: "'a outcome \<Rightarrow> RedisStore" where
  "store_of (Returns x r) = r"
| "store_of (Panic r) = r"
| "store_of (Exit r) = r"

fun reply_of :: "'a outcome \<Rightarrow> 'a option" where
  "reply_of (Returns x r) = Some x"
| "reply_of (Panic r) = None"
| "reply_of (Exit r) = None"

definition NewRedisStore :: RedisStore where
  "NewRedisStore = \<lparr>data = Map.empty, listData = Map.empty, aof = [], writeAOFEnabled = False\<rparr>"

subsection \<open>Strings\<close>

abbreviation LF :: char where "LF \<equiv> CHR 0x0A"
abbreviation CR :: char where "CR \<equiv> CHR 0x0D"
abbreviation SP :: char where "SP \<equiv> CHR 0x20"

text \<open>\<^verbatim>\<open>strings.Join\<close>.\<close>

fun Join :: "string list \<Rightarrow> string \<Rightarrow> string" where
  "Join [] sep = []"
| "Join [a] sep = a"
| "Join (a # b # rest) sep = a @ sep @ Join (b # rest) sep"

text \<open>\<^verbatim>\<open>strings.Split\<close> with a separator of one byte; \<open>acc\<close> is the piece being read, reversed.\<close>

fun split_acc :: "char \<Rightarrow> string \<Rightarrow> string \<Rightarrow> string list" where
  "split_acc sep acc [] = [rev acc]"
| "split_acc sep acc (c # cs) =
     (if c = sep then rev acc # split_acc sep [] cs else split_acc sep (c # acc) cs)"

definition Split :: "string \<Rightarrow> char \<Rightarrow> string list" where
  "Split s sep = split_acc sep [] s"

text \<open>\<^verbatim>\<open>fmt.Sprintf("%v", xs)\<close> for a slice of strings.\<close>

definition Sprint_v :: "string list \<Rightarrow> string" where
  "Sprint_v xs = ''['' @ Join xs '' '' @ '']''"

text \<open>
  \<^verbatim>\<open>strconv.Atoi\<close> on a 64-bit platform: an optional sign, then one or more decimal
  digits, the value within the range of \<^verbatim>\<open>int64\<close>; \<open>None\<close> is the error.
\<close>

definition digit_of :: "char \<Rightarrow> nat option" where
  "digit_of c = (if c \<in> set ''0123456789'' then Some (of_char c - 48) else None)"

fun digits_value :: "string \<Rightarrow> nat \<Rightarrow> nat option" where
  "digits_value [] n = Some n"
| "digits_value (c # cs) n =
     (case digit_of c of None \<Rightarrow> None | Some d \<Rightarrow> digits_value cs (n * 10 + d))"

definition Atoi :: "string \<Rightarrow> int option" where
  "Atoi s =
     (let neg = (s \<noteq> [] \<and> hd s = CHR ''-'');
          ds = (if s \<noteq> [] \<and> (hd s = CHR ''-'' \<or> hd s = CHR ''+'') then tl s else s)
      in if ds = [] then None
         else case digits_value ds 0 of
                None \<Rightarrow> None
              | Some n \<Rightarrow>
                  (let v = (if neg then - int n else int n)
                   in if - (2 ^ 63) \<le> v \<and> v < 2 ^ 63 then Some v else None))"

text \<open>\<^verbatim>\<open>time.Duration(seconds) * time.Second\<close>: a product of two \<^verbatim>\<open>int64\<close>, which wraps.\<close>

definition seconds_duration :: "int \<Rightarrow> int" where
  "seconds_duration seconds = sint (word_of_int (seconds * 1000000000) :: 64 word)"

subsection \<open>Store operations\<close>

definition writeAOF :: "string \<Rightarrow> string list \<Rightarrow> RedisStore \<Rightarrow> RedisStore" where
  "writeAOF command args r =
     (if \<not> writeAOFEnabled r then r
      else r\<lparr>aof := aof r @ [command @ '' '' @ Join args '' '' @ [LF]]\<rparr>)"

text \<open>\<^verbatim>\<open>r.listData[key]\<close>: the nil slice when the key is absent.\<close>

definition list_at :: "RedisStore \<Rightarrow> string \<Rightarrow> string list" where
  "list_at r key = (case listData r key of None \<Rightarrow> [] | Some xs \<Rightarrow> xs)"

definition ListPush :: "string \<Rightarrow> string \<Rightarrow> RedisStore \<Rightarrow> RedisStore" where
  "ListPush key v r = r\<lparr>listData := (listData r)(key \<mapsto> list_at r key @ [v])\<rparr>"

definition ListPop :: "string \<Rightarrow> RedisStore \<Rightarrow> (string \<times> bool) \<times> RedisStore" where
  "ListPop key r =
     (if length (list_at r key) = 0 then (('''', False), r)
      else ((hd (list_at r key), True),
            r\<lparr>listData := (listData r)(key \<mapsto> tl (list_at r key))\<rparr>))"

definition SetWithExpiration :: "int \<Rightarrow> string \<Rightarrow> string \<Rightarrow> int \<Rightarrow> RedisStore \<Rightarrow> RedisStore" where
  "SetWithExpiration t key v duration r =
     writeAOF ''SET'' [key, v]
       (r\<lparr>data := (data r)(key \<mapsto> \<lparr>value' = v, expiration = t + duration\<rparr>)\<rparr>)"

definition Set :: "string \<Rightarrow> StoredValue \<Rightarrow> RedisStore \<Rightarrow> RedisStore" where
  "Set key v r = writeAOF ''SET'' [key, value' v] (r\<lparr>data := (data r)(key \<mapsto> v)\<rparr>)"

definition Get :: "int \<Rightarrow> string \<Rightarrow> RedisStore \<Rightarrow> string \<times> bool" where
  "Get t key r =
     (case data r key of
        None \<Rightarrow> ('''', False)
      | Some sv \<Rightarrow>
          if expiration sv \<noteq> 0 \<and> t > expiration sv then ('''', False)
          else (value' sv, True))"

definition Del :: "string \<Rightarrow> RedisStore \<Rightarrow> RedisStore" where
  "Del key r = writeAOF ''DEL'' [key] (r\<lparr>data := (data r)(key := None)\<rparr>)"

text \<open>The body of the loop of \<^verbatim>\<open>HMSet\<close>, for one entry of the map.\<close>

definition HMSet_step :: "string \<Rightarrow> string \<times> string \<Rightarrow> RedisStore \<Rightarrow> RedisStore" where
  "HMSet_step key kv r =
     writeAOF ''HMSET'' [key, fst kv, snd kv]
       (r\<lparr>data := (data r)(key @ ''.'' @ fst kv \<mapsto> \<lparr>value' = snd kv, expiration = 0\<rparr>)\<rparr>)"

definition HMSet :: "env \<Rightarrow> string \<Rightarrow> (string \<times> string) list \<Rightarrow> RedisStore \<Rightarrow> RedisStore" where
  "HMSet e key vals r = fold (HMSet_step key) (range_order e vals) r"

definition HMGet :: "string \<Rightarrow> string list \<Rightarrow> RedisStore \<Rightarrow> (string \<times> string) list" where
  "HMGet key flds r =
     fold (\<lambda>field result.
             case data r (key @ ''.'' @ field) of
               Some sv \<Rightarrow> AList.update field (value' sv) result
             | None \<Rightarrow> result)
          flds []"

subsection \<open>The dispatcher\<close>

text \<open>
  The loop of the \<^verbatim>\<open>HMSET\<close> branch, \<^verbatim>\<open>for i := 1; i < len(Args); i += 2\<close>, over the
  arguments after the key: it reads \<^verbatim>\<open>Args[i+1]\<close> without a check, so a field with no
  value after it is an index out of range (\<open>None\<close>).
\<close>

fun hmset_values :: "string list \<Rightarrow> (string \<times> string) list \<Rightarrow> (string \<times> string) list option" where
  "hmset_values [] vals = Some vals"
| "hmset_values [f] vals = None"
| "hmset_values (f # v # rest) vals = hmset_values rest (AList.update f v vals)"

definition processCommand :: "env \<Rightarrow> Command \<Rightarrow> RedisStore \<Rightarrow> string outcome" where
  "processCommand e cmd store =
     (if Name cmd = ''GET'' then
        (if length (Args cmd) = 1 then
           (case Get (now e) (Args cmd ! 0) store of
              (val, exists) \<Rightarrow> if exists then Returns val store else Returns ''(nil)'' store)
         else Returns '''' store)
      else if Name cmd = ''SET'' then
        (if length (Args cmd) \<ge> 2 then
           Returns ''OK'' (Set (Args cmd ! 0) \<lparr>value' = Args cmd ! 1, expiration = 0\<rparr> store)
         else Returns '''' store)
      else if Name cmd = ''EXPIRE'' then
        (if length (Args cmd) \<ge> 3 then
           (case Atoi (Args cmd ! 2) of
              None \<Rightarrow> Returns ''ERR invalid expire time'' store
            | Some seconds \<Rightarrow>
                Returns ''OK''
                  (SetWithExpiration (now e) (Args cmd ! 0) (Args cmd ! 1)
                     (seconds_duration seconds) store))
         else Returns '''' store)
      else if Name cmd = ''DEL'' then
        (if length (Args cmd) = 1 then Returns ''OK'' (Del (Args cmd ! 0) store)
         else Returns '''' store)
      else if Name cmd = ''HMSET'' then
        (if length (Args cmd) \<ge> 2 then
           (case hmset_values (tl (Args cmd)) [] of
              None \<Rightarrow> Panic store
            | Some vals \<Rightarrow> Returns ''OK'' (HMSet e (Args cmd ! 0) vals store))
         else Returns '''' store)
      else if Name cmd = ''HMGET'' then
        (if length (Args cmd) \<ge> 2 then
           Returns
             (Sprint_v (concat (map (\<lambda>kv. [fst kv, snd kv])
                (range_order e (HMGet (Args cmd ! 0) (tl (Args cmd)) store)))))
             store
         else Returns '''' store)
      else if Name cmd = ''EXIT'' then Exit store
      else Returns '''' store)"

subsection \<open>Replay\<close>

text \<open>
  What \<^verbatim>\<open>os.Open\<close> and the \<^verbatim>\<open>bufio.Scanner\<close> give \<^verbatim>\<open>loadAOF\<close>: no file, another
  error of \<^verbatim>\<open>os.Open\<close>, or the lines that \<^verbatim>\<open>scanner.Text()\<close> yields followed by the
  value of \<^verbatim>\<open>scanner.Err()\<close>.
\<close>

datatype aof_file = NotExist | OpenError string | Opened "string list" "string option"

text \<open>The loop over the scanned lines; line \<open>i\<close> is processed under \<open>envs i\<close>.\<close>

fun loadAOF_loop :: "(nat \<Rightarrow> env) \<Rightarrow> nat \<Rightarrow> string list \<Rightarrow> RedisStore \<Rightarrow> unit outcome" where
  "loadAOF_loop envs i [] r = Returns () r"
| "loadAOF_loop envs i (line # rest) r =
     (let parts = Split line SP in
      if length parts < 2 then loadAOF_loop envs (Suc i) rest r
      else case processCommand (envs i) \<lparr>Name = hd parts, Args = tl parts\<rparr> r of
             Returns resp r' \<Rightarrow> loadAOF_loop envs (Suc i) rest r'
           | Panic r' \<Rightarrow> Panic r'
           | Exit r' \<Rightarrow> Exit r')"

text \<open>The returned value is Go's \<^verbatim>\<open>error\<close>: \<open>None\<close> is \<^verbatim>\<open>nil\<close>.\<close>

definition loadAOF :: "(nat \<Rightarrow> env) \<Rightarrow> aof_file \<Rightarrow> RedisStore \<Rightarrow> string option outcome" where
  "loadAOF envs f r0 =
     (let r = r0\<lparr>writeAOFEnabled := False\<rparr> in
      case f of
        NotExist \<Rightarrow> Returns None r
      | OpenError err \<Rightarrow> Returns (Some err) r
      | Opened lines err \<Rightarrow>
          (case loadAOF_loop envs 0 lines r of
             Returns u r' \<Rightarrow> Returns err (r'\<lparr>writeAOFEnabled := True\<rparr>)
           | Panic r' \<Rightarrow> Panic r'
           | Exit r' \<Rightarrow> Exit r'))"

text \<open>
  The scanner itself (\<^verbatim>\<open>bufio.ScanLines\<close> with the default buffer): lines end at a
  line feed, one carriage return before it is dropped, a last line without a line feed
  is yielded when it is not empty, and a line of more than 65535 bytes stops the scan
  with \<^verbatim>\<open>ErrTooLong\<close> (the flag of the result).
\<close>

definition dropCR :: "string \<Rightarrow> string" where
  "dropCR l = (if l \<noteq> [] \<and> last l = CR then butlast l else l)"

fun scan_acc :: "string \<Rightarrow> string \<Rightarrow> string list \<times> bool" where
  "scan_acc acc [] =
     (if acc = [] then ([], False)
      else if length acc > 65535 then ([], True)
      else ([dropCR (rev acc)], False))"
| "scan_acc acc (c # cs) =
     (if c = LF then
        (if length acc > 65535 then ([], True)
         else case scan_acc [] cs of (ls, long) \<Rightarrow> (dropCR (rev acc) # ls, long))
      else scan_acc (c # acc) cs)"

definition read_file :: "string \<Rightarrow> string option \<Rightarrow> aof_file" where
  "read_file content read_err =
     (case scan_acc [] content of
        (ls, long) \<Rightarrow>
          Opened ls (if long then Some ''bufio.Scanner: token too long'' else read_err))"

subsection \<open>Sequences of calls\<close>

text \<open>\<open>n\<close> calls of \<^verbatim>\<open>ListPop\<close> on one key, with their results in order.\<close>

fun pop_n :: "nat \<Rightarrow> string \<Rightarrow> RedisStore \<Rightarrow> (string \<times> bool) list \<times> RedisStore" where
  "pop_n 0 key r = ([], r)"
| "pop_n (Suc n) key r =
     (case ListPop key r of
        (res, r') \<Rightarrow> (case pop_n n key r' of (rs, r'') \<Rightarrow> (res # rs, r'')))"

text \<open>
  A call on the store from outside: a command through the dispatcher, or one of the two
  list methods, which no command reaches. A sequence of calls runs while every command
  returns.
\<close>

datatype op = Exec env Command | Push string string | Pop string

fun run :: "op list \<Rightarrow> RedisStore \<Rightarrow> RedisStore option" where
  "run [] r = Some r"
| "run (Exec e cmd # ops) r =
     (case processCommand e cmd r of
        Returns resp r' \<Rightarrow> run ops r'
      | Panic r' \<Rightarrow> None
      | Exit r' \<Rightarrow> None)"
| "run (Push key v # ops) r = run ops (ListPush key v r)"
| "run (Pop key # ops) r = run ops (snd (ListPop key r))"

text \<open>
  An argument that a record of the log carries unchanged: no space and no line feed in
  it, and no carriage return at its end.
\<close>

definition clean :: "string \<Rightarrow> bool" where
  "clean a \<longleftrightarrow> SP \<notin> set a \<and> LF \<notin> set a \<and> (a = [] \<or> last a \<noteq> CR)"

fun ok_op :: "op \<Rightarrow> bool" where
  "ok_op (Exec e cmd) = (valid_env e \<and> list_all clean (Args cmd))"
| "ok_op (Push key v) = True"
| "ok_op (Pop key) = True"

text \<open>A call that is not a command named \<^verbatim>\<open>EXPIRE\<close>.\<close>

fun plain_op :: "op \<Rightarrow> bool" where
  "plain_op (Exec e cmd) = (Name cmd \<noteq> ''EXPIRE'')"
| "plain_op (Push key v) = True"
| "plain_op (Pop key) = True"

text \<open>The names that the \<^verbatim>\<open>switch\<close> of \<^verbatim>\<open>processCommand\<close> has a case for.\<close>

definition recognized :: "string \<Rightarrow> bool" where
  "recognized name \<longleftrightarrow>
     name \<in> set [''GET'', ''SET'', ''EXPIRE'', ''DEL'', ''HMSET'', ''HMGET'', ''EXIT'']"

text \<open>
  The lines of the log that the loop of \<open>loadAOF\<close> passes over: fewer than two pieces,
  a first piece that names no command, a read, or a write with the wrong number of
  arguments or with seconds that \<^verbatim>\<open>Atoi\<close> refuses.
\<close>

definition skipped_line :: "string \<Rightarrow> bool" where
  "skipped_line line =
     (let parts = Split line SP; name = hd parts; args = tl parts
      in length parts < 2 \<or> \<not> recognized name \<or> name = ''GET'' \<or> name = ''HMGET''
         \<or> (name = ''SET'' \<and> length args < 2)
         \<or> (name = ''EXPIRE'' \<and> (length args < 3 \<or> Atoi (args ! 2) = None))
         \<or> (name = ''DEL'' \<and> length args \<noteq> 1)
         \<or> (name = ''HMSET'' \<and> length args < 2))"

subsection \<open>Auxiliary functions of the proofs\<close>

text \<open>What one round of the loop of \<^verbatim>\<open>HMSet\<close> does to the scalar map.\<close>

definition put_field ::
  "string \<Rightarrow> string \<times> string \<Rightarrow> (string \<rightharpoonup> StoredValue) \<Rightarrow> (string \<rightharpoonup> StoredValue)" where
  "put_field key kv m = m(key @ ''.'' @ fst kv \<mapsto> \<lparr>value' = snd kv, expiration = 0\<rparr>)"

text \<open>A scalar map with every expiration set to the zero instant.\<close>

definition without_expirations :: "(string \<rightharpoonup> StoredValue) \<Rightarrow> (string \<rightharpoonup> StoredValue)" where
  "without_expirations m = (\<lambda>k. map_option (\<lambda>sv. sv\<lparr>expiration := 0\<rparr>) (m k))"

text \<open>The line of a record, as \<open>writeAOF\<close> formats it before the line feed.\<close>

definition aof_line :: "string \<Rightarrow> string list \<Rightarrow> string" where
  "aof_line command args = command @ '' '' @ Join args '' ''"

text \<open>A record that the scanner gives back as its line: one line feed, at the end, and no
  carriage return before it.\<close>

definition record_ok :: "string \<Rightarrow> bool" where
  "record_ok rec \<longleftrightarrow> (\<exists>l. rec = l @ [LF] \<and> LF \<notin> set l \<and> dropCR l = l)"

text \<open>
  The step of the replay proof: from \<open>s\<close> the live store went to \<open>s'\<close> and wrote
  \<open>recs\<close>; reading the lines of \<open>recs\<close> takes the replaying store from \<open>t\<close> to \<open>t'\<close>,
  which has the scalar map of \<open>s'\<close> without its expirations.
\<close>

definition simulates ::
  "(nat \<Rightarrow> env) \<Rightarrow> RedisStore \<Rightarrow> RedisStore \<Rightarrow> RedisStore \<Rightarrow> string list \<Rightarrow> RedisStore \<Rightarrow> bool" where
  "simulates envs s s' t recs t' \<longleftrightarrow>
     aof s' = aof s @ recs \<and> writeAOFEnabled s' \<and> list_all record_ok recs
     \<and> (\<forall>i rest. loadAOF_loop envs i (map butlast recs @ rest) t =
                  loadAOF_loop envs (i + length recs) rest t')
     \<and> data t' = without_expirations (data s') \<and> listData t' = listData t
     \<and> \<not> writeAOFEnabled t'"

section \<open>Reading a scalar\<close>

text \<open>
  C4. \<open>Get\<close> reports not found exactly when the key has no scalar entry, or its entry
  has an expiration (one that is not the zero instant) and the clock is strictly after
  it. An entry without expiration is found at every time, and an entry is still found
  at the instant of its expiration.
\<close>

theorem Get_found_iff:
  "(snd (Get t key r) = False \<longleftrightarrow>
      (data r key = None \<or>
       (\<exists>sv. data r key = Some sv \<and> expiration sv \<noteq> 0 \<and> t > expiration sv)))
   \<and> (\<forall>sv. data r key = Some sv \<and> expiration sv = 0 \<longrightarrow> Get t key r = (value' sv, True))
   \<and> (\<forall>sv. data r key = Some sv \<and> expiration sv = t \<longrightarrow> Get t key r = (value' sv, True))"
  by (auto simp: Get_def split: option.splits)

theorem Get_found_iff_witness:
  "(let r = \<lparr>data = [''k'' \<mapsto> \<lparr>value' = ''v'', expiration = 100\<rparr>,
                      ''p'' \<mapsto> \<lparr>value' = ''w'', expiration = 0\<rparr>],
             listData = Map.empty, aof = [], writeAOFEnabled = True\<rparr>
    in Get 100 ''k'' r = (''v'', True) \<and> Get 101 ''k'' r = ('''', False)
       \<and> Get 101 ''p'' r = (''w'', True) \<and> Get 101 ''q'' r = ('''', False))"
  using Get_found_iff [of 100 "''k''"
    "\<lparr>data = [''k'' \<mapsto> \<lparr>value' = ''v'', expiration = 100\<rparr>,
              ''p'' \<mapsto> \<lparr>value' = ''w'', expiration = 0\<rparr>],
      listData = Map.empty, aof = [], writeAOFEnabled = True\<rparr>"]
  by (simp add: Get_def)

section \<open>Facts about the store operations\<close>

lemma writeAOF_fields [simp]:
  "data (writeAOF c args r) = data r"
  "listData (writeAOF c args r) = listData r"
  "writeAOFEnabled (writeAOF c args r) = writeAOFEnabled r"
  by (simp_all add: writeAOF_def)

lemma writeAOF_off [simp]: "\<not> writeAOFEnabled r \<Longrightarrow> writeAOF c args r = r"
  by (simp add: writeAOF_def)

lemma put_field_same:
  "put_field key kv m (key @ CHR ''.'' # f) =
     (if f = fst kv then Some \<lparr>value' = snd kv, expiration = 0\<rparr> else m (key @ CHR ''.'' # f))"
  by (simp add: put_field_def)

lemma HMSet_step_fields [simp]:
  "data (HMSet_step key kv r) = put_field key kv (data r)"
  "listData (HMSet_step key kv r) = listData r"
  "writeAOFEnabled (HMSet_step key kv r) = writeAOFEnabled r"
  by (simp_all add: HMSet_step_def put_field_def)

lemma fold_HMSet_step_frame:
  "listData (fold (HMSet_step key) ps r) = listData r \<and>
   writeAOFEnabled (fold (HMSet_step key) ps r) = writeAOFEnabled r"
  by (induction ps arbitrary: r) simp_all

lemma fold_HMSet_step_aof_off:
  "\<not> writeAOFEnabled r \<Longrightarrow> aof (fold (HMSet_step key) ps r) = aof r"
  by (induction ps arbitrary: r) (simp_all add: HMSet_step_def)

lemma data_fold_HMSet_step:
  "data (fold (HMSet_step key) ps r) = fold (put_field key) ps (data r)"
  by (induction ps arbitrary: r) simp_all

lemma fold_put_field_notin:
  "f \<notin> fst ` set ps \<Longrightarrow>
   fold (put_field key) ps m (key @ CHR ''.'' # f) = m (key @ CHR ''.'' # f)"
  by (induction ps arbitrary: m) (auto simp: put_field_same)

lemma fold_put_field_in:
  "distinct (map fst ps) \<Longrightarrow> (f, v) \<in> set ps \<Longrightarrow>
   fold (put_field key) ps m (key @ CHR ''.'' # f) = Some \<lparr>value' = v, expiration = 0\<rparr>"
proof (induction ps arbitrary: m)
  case Nil
  then show ?case by simp
next
  case (Cons p ps)
  show ?case
  proof (cases "p = (f, v)")
    case True
    with Cons.prems have "f \<notin> fst ` set ps" by auto
    with True show ?thesis by (simp add: fold_put_field_notin put_field_same)
  next
    case False
    with Cons show ?thesis by auto
  qed
qed

lemma valid_env_set: "valid_env e \<Longrightarrow> set (range_order e m) = set m"
  by (metis valid_env_def mset_eq_setD)

lemma valid_env_distinct:
  "valid_env e \<Longrightarrow> distinct (map fst (range_order e m)) = distinct (map fst m)"
proof -
  assume "valid_env e"
  then have "mset (map fst (range_order e m)) = mset (map fst m)"
    by (metis valid_env_def mset_map)
  then show ?thesis by (rule mset_eq_imp_distinct_iff)
qed

section \<open>Hash fields live in the scalar map\<close>

text \<open>
  C10. \<open>HMSet\<close> stores each field of a map as a scalar entry without expiration under
  the key, a dot and the field, so \<open>Get\<close> on that string finds the value at every
  time; \<open>Set\<close> on such a string makes a field that \<open>HMGet\<close> reports, and \<open>Del\<close> on it
  removes the field.
\<close>

theorem fields_are_scalars:
  "(valid_env e \<and> distinct (map fst vals) \<and> (f, v) \<in> set vals \<longrightarrow>
      data (HMSet e k vals r) (k @ ''.'' @ f) = Some \<lparr>value' = v, expiration = 0\<rparr>
      \<and> Get t (k @ ''.'' @ f) (HMSet e k vals r) = (v, True))
   \<and> HMGet k [f] (Set (k @ ''.'' @ f) sv r) = [(f, value' sv)]
   \<and> HMGet k [f] (Del (k @ ''.'' @ f) r) = []"
proof -
  have a: "data (HMSet e k vals r) (k @ ''.'' @ f) = Some \<lparr>value' = v, expiration = 0\<rparr>"
    if "valid_env e" "distinct (map fst vals)" "(f, v) \<in> set vals"
    using that
    by (simp add: HMSet_def data_fold_HMSet_step fold_put_field_in valid_env_set valid_env_distinct)
  have b: "HMGet k [f] (Set (k @ ''.'' @ f) sv r) = [(f, value' sv)]"
    by (simp add: HMGet_def Set_def)
  have c: "HMGet k [f] (Del (k @ ''.'' @ f) r) = []"
    by (simp add: HMGet_def Del_def)
  from a b c show ?thesis by (simp add: Get_def)
qed

theorem fields_are_scalars_witness:
  "valid_env \<lparr>now = 100, range_order = rev\<rparr>
   \<and> distinct (map fst [(''f'', ''v''), (''g'', ''w'')])
   \<and> (''g'', ''w'') \<in> set [(''f'', ''v''), (''g'', ''w'')]
   \<and> Get 7 ''h.g''
        (HMSet \<lparr>now = 100, range_order = rev\<rparr> ''h'' [(''f'', ''v''), (''g'', ''w'')] NewRedisStore)
       = (''w'', True)"
  using fields_are_scalars [of "\<lparr>now = 100, range_order = rev\<rparr>"
     "[(''f'', ''v''), (''g'', ''w'')]" "''g''" "''w''" "''h''" NewRedisStore 7]
  by (simp add: valid_env_def)

section \<open>SET\<close>

text \<open>
  C6. A \<^verbatim>\<open>SET\<close> command with at least two arguments answers \<^verbatim>\<open>OK\<close> and binds the key
  to a new entry with the given value and the zero expiration, whatever the key held
  before, so \<open>Get\<close> finds the new value at every time.
\<close>

theorem SET_clears_expiration:
  "\<exists>r'. processCommand e \<lparr>Name = ''SET'', Args = key # v # rest\<rparr> r = Returns ''OK'' r'
        \<and> data r' key = Some \<lparr>value' = v, expiration = 0\<rparr>
        \<and> (\<forall>t. Get t key r' = (v, True))"
  by (simp add: processCommand_def Set_def Get_def)

section \<open>Lists\<close>

lemma list_at_ListPush: "list_at (ListPush key v r) key = list_at r key @ [v]"
  by (simp add: ListPush_def list_at_def)

lemma list_at_fold_ListPush: "list_at (fold (ListPush key) vs r) key = list_at r key @ vs"
  by (induction vs arbitrary: r) (simp_all add: list_at_ListPush)

lemma ListPop_Cons:
  "list_at r key = x # xs \<Longrightarrow>
   fst (ListPop key r) = (x, True) \<and> list_at (snd (ListPop key r)) key = xs"
  by (simp add: ListPop_def list_at_def)

lemma ListPop_Nil: "list_at r key = [] \<Longrightarrow> ListPop key r = (('''', False), r)"
  by (simp add: ListPop_def)

lemma pop_n_drains:
  "list_at r key = xs \<Longrightarrow>
   fst (pop_n (length xs) key r) = map (\<lambda>v. (v, True)) xs
   \<and> list_at (snd (pop_n (length xs) key r)) key = []"
proof (induction xs arbitrary: r)
  case Nil
  then show ?case by simp
next
  case (Cons x xs)
  from ListPop_Cons [OF Cons.prems]
  obtain r' where p: "ListPop key r = ((x, True), r')" and l: "list_at r' key = xs"
    by (cases "ListPop key r") auto
  from Cons.IH [OF l] p show ?case by (auto split: prod.splits)
qed

text \<open>
  C7. \<open>ListPush\<close> appends at the tail and \<open>ListPop\<close> takes the head; \<open>ListPop\<close> reports
  not found exactly when the key has no list or the empty list; popping the only
  element leaves the key bound to the empty list, and the next pop reports not found;
  after pushing \<open>vs\<close> on a new store, as many pops return \<open>vs\<close> in that order, and one
  more pop reports not found.
\<close>

theorem list_is_fifo:
  "list_at (ListPush key v r) key = list_at r key @ [v]
   \<and> (list_at r key = x # xs \<longrightarrow>
        fst (ListPop key r) = (x, True) \<and> list_at (snd (ListPop key r)) key = xs)
   \<and> (snd (fst (ListPop key r)) = False \<longleftrightarrow> (listData r key = None \<or> listData r key = Some []))
   \<and> (listData r key = Some [x] \<longrightarrow>
        listData (snd (ListPop key r)) key = Some []
        \<and> fst (ListPop key (snd (ListPop key r))) = ('''', False))
   \<and> fst (pop_n (length vs) key (fold (ListPush key) vs NewRedisStore)) = map (\<lambda>v. (v, True)) vs
   \<and> fst (ListPop key (snd (pop_n (length vs) key (fold (ListPush key) vs NewRedisStore))))
        = ('''', False)"
proof -
  have l: "list_at (fold (ListPush key) vs NewRedisStore) key = vs"
    by (simp add: list_at_fold_ListPush) (simp add: list_at_def NewRedisStore_def)
  have c: "snd (fst (ListPop key r)) = False \<longleftrightarrow> (listData r key = None \<or> listData r key = Some [])"
    by (auto simp: ListPop_def list_at_def split: option.splits)
  have d: "listData (snd (ListPop key r)) key = Some []
        \<and> fst (ListPop key (snd (ListPop key r))) = ('''', False)" if "listData r key = Some [x]"
    using that by (simp add: ListPop_def list_at_def)
  from pop_n_drains [OF l] ListPop_Nil ListPop_Cons list_at_ListPush c d
  show ?thesis by simp
qed

theorem list_is_fifo_witness:
  "(let r = ListPush ''k'' ''b'' (ListPush ''k'' ''a'' NewRedisStore)
    in list_at r ''k'' = [''a'', ''b'']
       \<and> fst (ListPop ''k'' r) = (''a'', True)
       \<and> listData (snd (ListPop ''k'' r)) ''k'' = Some [''b'']
       \<and> listData (snd (ListPop ''k'' (snd (ListPop ''k'' r)))) ''k'' = Some []
       \<and> fst (ListPop ''k'' (snd (ListPop ''k'' (snd (ListPop ''k'' r))))) = ('''', False))"
  using list_is_fifo [of "''k''" "''b''" "ListPush ''k'' ''a'' NewRedisStore" "''a''" "[]" "[]"]
        list_is_fifo [of "''k''" "''c''"
          "snd (ListPop ''k'' (ListPush ''k'' ''b'' (ListPush ''k'' ''a'' NewRedisStore)))"
          "''b''" "[]" "[]"]
  by (simp add: ListPush_def ListPop_def list_at_def NewRedisStore_def)

section \<open>Malformed commands\<close>

lemma hmset_values_None_iff: "hmset_values xs acc = None \<longleftrightarrow> odd (length xs)"
  by (induction xs acc rule: hmset_values.induct) simp_all

lemma hmset_values_Some_even: "hmset_values xs acc = Some vals \<Longrightarrow> even (length xs)"
  using hmset_values_None_iff [of xs acc] by auto

text \<open>
  C2. A command with too few arguments should get the empty answer, with no crash, no
  change of the store and no record. \<^verbatim>\<open>HMSET\<close> with a key and a field but no value
  passes the test \<^verbatim>\<open>len(cmd.Args) >= 2\<close> and then reads \<^verbatim>\<open>cmd.Args[2]\<close>: the call
  panics.
\<close>

theorem HMSET_incomplete_pair_panics:
  "processCommand e \<lparr>Name = ''HMSET'', Args = [''k'', ''f'']\<rparr> r = Panic r"
  by (simp add: processCommand_def)

text \<open>
  The same happens for every even number of arguments from two on; every other short
  or unknown command gets the empty answer and leaves the store as it was.
\<close>

lemma HMSET_panics_iff:
  "processCommand e \<lparr>Name = ''HMSET'', Args = args\<rparr> r = Panic r
     \<longleftrightarrow> 2 \<le> length args \<and> even (length args)"
proof (cases args)
  case Nil
  then show ?thesis by (simp add: processCommand_def)
next
  case (Cons a as)
  then show ?thesis
    by (auto simp: processCommand_def hmset_values_None_iff split: option.splits
          dest: hmset_values_Some_even)
qed

lemma short_args_rejected:
  "(Name cmd = ''GET'' \<and> length (Args cmd) \<noteq> 1) \<or>
   (Name cmd = ''SET'' \<and> length (Args cmd) < 2) \<or>
   (Name cmd = ''EXPIRE'' \<and> length (Args cmd) < 3) \<or>
   (Name cmd = ''DEL'' \<and> length (Args cmd) \<noteq> 1) \<or>
   (Name cmd = ''HMSET'' \<and> length (Args cmd) < 2) \<or>
   (Name cmd = ''HMGET'' \<and> length (Args cmd) < 2) \<or>
   \<not> recognized (Name cmd)
   \<Longrightarrow> processCommand e cmd r = Returns '''' r"
  by (auto simp: processCommand_def recognized_def)

lemma EXPIRE_bad_seconds:
  "Atoi s = None \<Longrightarrow>
   processCommand e \<lparr>Name = ''EXPIRE'', Args = k # v # s # rest\<rparr> r = Returns ''ERR invalid expire time'' r"
  by (simp add: processCommand_def)

section \<open>Reads\<close>

lemma reads_leave_store:
  "Name cmd = ''GET'' \<or> Name cmd = ''HMGET'' \<Longrightarrow> store_of (processCommand e cmd r) = r"
  by (auto simp: processCommand_def split: prod.splits)

lemma Get_expired_stays:
  "data r key = Some sv \<Longrightarrow> expiration sv \<noteq> 0 \<Longrightarrow> expiration sv < now e \<Longrightarrow>
   processCommand e \<lparr>Name = ''GET'', Args = [key]\<rparr> r = Returns ''(nil)'' r"
  by (simp add: processCommand_def Get_def)

text \<open>
  C5. The two reads leave the store and the log as they are (the lemmas above), and
  \<^verbatim>\<open>GET\<close> answers \<^verbatim>\<open>(nil)\<close> for an expired entry that stays in the map. \<open>HMGet\<close> has
  no test of the expiration: after \<^verbatim>\<open>EXPIRE h.f v 0\<close> at time 100, at time 200
  \<^verbatim>\<open>GET h.f\<close> answers \<^verbatim>\<open>(nil)\<close> and \<^verbatim>\<open>HMGET h f\<close> still answers with the value.
\<close>

theorem HMGET_reports_expired_entry:
  "(let r = store_of (processCommand \<lparr>now = 100, range_order = (\<lambda>m. m)\<rparr>
                        \<lparr>Name = ''EXPIRE'', Args = [''h.f'', ''v'', ''0'']\<rparr> NewRedisStore);
        e = \<lparr>now = 200, range_order = (\<lambda>m. m)\<rparr>
    in data r ''h.f'' = Some \<lparr>value' = ''v'', expiration = 100\<rparr>
       \<and> processCommand e \<lparr>Name = ''GET'', Args = [''h.f'']\<rparr> r = Returns ''(nil)'' r
       \<and> processCommand e \<lparr>Name = ''HMGET'', Args = [''h'', ''f'']\<rparr> r = Returns ''[f v]'' r)"
  by (simp add: processCommand_def Atoi_def digit_of_def seconds_duration_def
        SetWithExpiration_def NewRedisStore_def Get_def HMGet_def Sprint_v_def Let_def)

section \<open>Replay\<close>

lemma processCommand_flag:
  "writeAOFEnabled (store_of (processCommand e cmd r)) = writeAOFEnabled r"
  by (auto simp: processCommand_def Set_def SetWithExpiration_def Del_def HMSet_def
        fold_HMSet_step_frame split: option.splits prod.splits)

lemma processCommand_aof_off:
  "\<not> writeAOFEnabled r \<Longrightarrow> aof (store_of (processCommand e cmd r)) = aof r"
  by (auto simp: processCommand_def Set_def SetWithExpiration_def Del_def HMSet_def
        fold_HMSet_step_aof_off split: option.splits prod.splits)

lemma loadAOF_loop_aof_off:
  "\<not> writeAOFEnabled r \<Longrightarrow>
   aof (store_of (loadAOF_loop envs i ls r)) = aof r
   \<and> \<not> writeAOFEnabled (store_of (loadAOF_loop envs i ls r))"
proof (induction ls arbitrary: i r)
  case Nil
  then show ?case by simp
next
  case (Cons l ls)
  let ?c = "\<lparr>Name = hd (Split l SP), Args = tl (Split l SP)\<rparr>"
  let ?o = "processCommand (envs i) ?c r"
  have f: "\<not> writeAOFEnabled (store_of ?o)" and a: "aof (store_of ?o) = aof r"
    using Cons.prems by (simp_all add: processCommand_flag processCommand_aof_off)
  show ?case
  proof (cases "length (Split l SP) < 2")
    case True
    with Cons show ?thesis by simp
  next
    case False
    show ?thesis
    proof (cases ?o)
      case (Returns x r')
      with f a Cons.IH [of r' "Suc i"] False show ?thesis by (simp add: Let_def)
    next
      case (Panic r')
      with f a False show ?thesis by (simp add: Let_def)
    next
      case (Exit r')
      with f a False show ?thesis by (simp add: Let_def)
    qed
  qed
qed

text \<open>
  C9. \<open>loadAOF\<close> switches the log off before it reads, so whatever the file holds and
  however the replay ends (it returns, panics or exits), the records this store has
  written are the ones it had written before.
\<close>

theorem replay_appends_nothing:
  "aof (store_of (loadAOF envs f r)) = aof r"
proof -
  have "\<not> writeAOFEnabled (r\<lparr>writeAOFEnabled := False\<rparr>)" by simp
  from loadAOF_loop_aof_off [OF this]
  have h: "aof (store_of (loadAOF_loop envs 0 ls (r\<lparr>writeAOFEnabled := False\<rparr>))) = aof r" for ls
    by simp
  show ?thesis
  proof (cases f)
    case (Opened ls err)
    with h [of ls] show ?thesis
      by (cases "loadAOF_loop envs 0 ls (r\<lparr>writeAOFEnabled := False\<rparr>)")
         (simp_all add: loadAOF_def)
  qed (simp_all add: loadAOF_def)
qed

text \<open>
  The scanner stops with \<^verbatim>\<open>ErrTooLong\<close> exactly when some line of the content, as
  the line feeds divide it, has more than 65535 bytes.
\<close>

lemma scan_acc_long_iff:
  "snd (scan_acc acc s) \<longleftrightarrow> (\<exists>l\<in>set (split_acc LF acc s). 65535 < length l)"
proof (induction s arbitrary: acc)
  case Nil
  show ?case by simp
next
  case (Cons c s)
  show ?case
  proof (cases "c = LF")
    case True
    with Cons [of "[]"] show ?thesis by (cases "scan_acc [] s") auto
  next
    case False
    with Cons [of "c # acc"] show ?thesis by simp
  qed
qed

lemma scan_acc_too_long:
  "LF \<notin> set l \<Longrightarrow> 65535 < length acc + length l \<Longrightarrow> scan_acc acc (l @ LF # rest) = ([], True)"
  by (induction l arbitrary: acc) auto

lemma long_record_stops_replay:
  assumes "LF \<notin> set l" "65535 < length l"
  shows "loadAOF envs (read_file (l @ LF # rest) None) r =
         Returns (Some ''bufio.Scanner: token too long'') (r\<lparr>writeAOFEnabled := True\<rparr>)"
  using scan_acc_too_long [of l "[]" rest] assms
  by (simp add: read_file_def loadAOF_def)

lemma skipped_line_skipped:
  assumes "skipped_line line"
  shows "loadAOF_loop envs i (line # rest) r = loadAOF_loop envs (Suc i) rest r"
proof (cases "length (Split line SP) < 2")
  case True
  then show ?thesis by simp
next
  case False
  let ?cmd = "\<lparr>Name = hd (Split line SP), Args = tl (Split line SP)\<rparr>"
  from assms False have "\<exists>x. processCommand (envs i) ?cmd r = Returns x r"
    by (auto simp: skipped_line_def Let_def processCommand_def recognized_def
          split: prod.splits)
  with False show ?thesis by (auto simp: Let_def)
qed

text \<open>
  C8, as the code has it. Without a file \<open>loadAOF\<close> returns no error and leaves a new
  store as it is. An empty line, a line of fewer than two pieces, a line whose first
  piece is not the name of a command, a \<^verbatim>\<open>GET\<close> or \<^verbatim>\<open>HMGET\<close> line, and a line that
  names \<^verbatim>\<open>SET\<close>, \<^verbatim>\<open>EXPIRE\<close>, \<^verbatim>\<open>DEL\<close> or \<^verbatim>\<open>HMSET\<close> with the wrong number of
  arguments for it (or \<^verbatim>\<open>EXPIRE\<close> with seconds that are no number) are passed over: the
  loop goes on with the next line and the same store. A line of two or more pieces
  named \<^verbatim>\<open>EXIT\<close> ends the process. \<open>loadAOF\<close> returns an error only if \<^verbatim>\<open>os.Open\<close>
  failed for another reason than a missing file, or the scanner ended with an error;
  on a file whose bytes are all read, the scanner's error is either the error of the
  read or \<^verbatim>\<open>ErrTooLong\<close> for a line of more than 65535 bytes, and with such a line
  \<open>loadAOF\<close> never returns without error. Nothing is said of a \<^verbatim>\<open>HMSET\<close> line whose
  last field has no value.
\<close>

theorem replay_skips_and_errors:
  "loadAOF envs NotExist NewRedisStore = Returns None NewRedisStore
   \<and> loadAOF_loop envs i ([] # rest) r = loadAOF_loop envs (Suc i) rest r
   \<and> (length (Split line SP) < 2 \<or> \<not> recognized (hd (Split line SP)) \<longrightarrow>
        loadAOF_loop envs i (line # rest) r = loadAOF_loop envs (Suc i) rest r)
   \<and> (skipped_line line \<longrightarrow>
        loadAOF_loop envs i (line # rest) r = loadAOF_loop envs (Suc i) rest r)
   \<and> (2 \<le> length (Split line SP) \<and> hd (Split line SP) = ''EXIT'' \<longrightarrow>
        loadAOF_loop envs i (line # rest) r = Exit r)
   \<and> (reply_of (loadAOF envs f r) = Some (Some err) \<longrightarrow>
        f = OpenError err \<or> (\<exists>ls. f = Opened ls (Some err)))
   \<and> (reply_of (loadAOF envs (read_file content read_err) r) = Some (Some err) \<longrightarrow>
        read_err = Some err \<or>
        ((\<exists>l\<in>set (Split content LF). 65535 < length l) \<and> err = ''bufio.Scanner: token too long''))
   \<and> ((\<exists>l\<in>set (Split content LF). 65535 < length l) \<longrightarrow>
        reply_of (loadAOF envs (read_file content read_err) r) \<noteq> Some None)"
proof -
  have a: "loadAOF envs NotExist NewRedisStore = Returns None NewRedisStore"
    by (simp add: loadAOF_def NewRedisStore_def)
  have b: "loadAOF_loop envs i ([] # rest) r = loadAOF_loop envs (Suc i) rest r"
    by (simp add: Split_def)
  have c: "loadAOF_loop envs i (line # rest) r = loadAOF_loop envs (Suc i) rest r"
    if "length (Split line SP) < 2 \<or> \<not> recognized (hd (Split line SP))"
    using that by (auto simp: Let_def short_args_rejected)
  have c': "loadAOF_loop envs i (line # rest) r = loadAOF_loop envs (Suc i) rest r"
    if "skipped_line line"
    using that by (rule skipped_line_skipped)
  have x: "loadAOF_loop envs i (line # rest) r = Exit r"
    if "2 \<le> length (Split line SP) \<and> hd (Split line SP) = ''EXIT''"
    using that by (simp add: Let_def processCommand_def)
  have d: "f = OpenError err \<or> (\<exists>ls. f = Opened ls (Some err))"
    if "reply_of (loadAOF envs f r) = Some (Some err)"
    using that by (cases f) (auto simp: loadAOF_def Let_def split: outcome.splits)
  obtain ls long where sc: "scan_acc [] content = (ls, long)"
    by (cases "scan_acc [] content")
  with scan_acc_long_iff [of "[]" content]
  have lg: "long \<longleftrightarrow> (\<exists>l\<in>set (Split content LF). 65535 < length l)"
    by (simp add: Split_def)
  have e: "read_err = Some err \<or>
        ((\<exists>l\<in>set (Split content LF). 65535 < length l) \<and> err = ''bufio.Scanner: token too long'')"
    if "reply_of (loadAOF envs (read_file content read_err) r) = Some (Some err)"
    using that sc lg
    by (cases "loadAOF_loop envs 0 ls (r\<lparr>writeAOFEnabled := False\<rparr>)")
       (auto simp: loadAOF_def read_file_def split: if_splits)
  have g: "reply_of (loadAOF envs (read_file content read_err) r) \<noteq> Some None"
    if "\<exists>l\<in>set (Split content LF). 65535 < length l"
    using that sc lg
    by (cases "loadAOF_loop envs 0 ls (r\<lparr>writeAOFEnabled := False\<rparr>)")
       (auto simp: loadAOF_def read_file_def)
  from a b c c' x d e g show ?thesis by blast
qed

theorem replay_skips_and_errors_witness:
  "\<not> recognized (hd (Split ''set k v'' SP))
   \<and> length (Split ''garbage'' SP) < 2
   \<and> skipped_line ''EXPIRE k v soon''
   \<and> 2 \<le> length (Split ''EXIT x'' SP) \<and> hd (Split ''EXIT x'' SP) = ''EXIT''
   \<and> loadAOF (\<lambda>i. \<lparr>now = 5, range_order = (\<lambda>m. m)\<rparr>)
        (Opened ['''', ''garbage'', ''set k v'', ''EXPIRE k v soon'', ''SET a b''] None)
        NewRedisStore
      = Returns None \<lparr>data = [''a'' \<mapsto> \<lparr>value' = ''b'', expiration = 0\<rparr>], listData = Map.empty,
                      aof = [], writeAOFEnabled = True\<rparr>
   \<and> loadAOF_loop (\<lambda>i. \<lparr>now = 5, range_order = (\<lambda>m. m)\<rparr>) 0 [''EXIT x'', ''SET a b'']
        NewRedisStore = Exit NewRedisStore
   \<and> reply_of (loadAOF (\<lambda>i. \<lparr>now = 5, range_order = (\<lambda>m. m)\<rparr>)
        (Opened [''SET a b''] (Some ''read error'')) NewRedisStore) = Some (Some ''read error'')
   \<and> reply_of (loadAOF (\<lambda>i. \<lparr>now = 5, range_order = (\<lambda>m. m)\<rparr>)
        (read_file (''SET a b'' @ [LF]) (Some ''read error'')) NewRedisStore)
      = Some (Some ''read error'')
   \<and> (\<exists>l\<in>set (Split (replicate 65536 (CHR ''a'') @ [LF]) LF). 65535 < length l)
   \<and> reply_of (loadAOF (\<lambda>i. \<lparr>now = 5, range_order = (\<lambda>m. m)\<rparr>)
        (read_file (replicate 65536 (CHR ''a'') @ [LF]) None) NewRedisStore) \<noteq> Some None"
proof -
  let ?envs = "\<lambda>i::nat. \<lparr>now = 5, range_order = (\<lambda>m. m)\<rparr>"
  have sk: "skipped_line ''EXPIRE k v soon''"
    by (simp add: skipped_line_def Split_def Let_def recognized_def Atoi_def digit_of_def)
  have lg: "\<exists>l\<in>set (Split (replicate 65536 (CHR ''a'') @ [LF]) LF). 65535 < length l"
    unfolding Split_def scan_acc_long_iff [symmetric]
    using scan_acc_too_long [of "replicate 65536 (CHR ''a'')" "[]" "[]"] by simp
  note t1 = replay_skips_and_errors [of ?envs 2 "[''EXPIRE k v soon'', ''SET a b'']"
          "NewRedisStore" "''set k v''" "Opened [''SET a b''] (Some ''read error'')"
          "''read error''" "''SET a b'' @ [LF]" "Some ''read error''"]
  note t2 = replay_skips_and_errors [of ?envs 1 "[''set k v'', ''EXPIRE k v soon'', ''SET a b'']"
          "NewRedisStore" "''garbage''" "Opened [''SET a b''] (Some ''read error'')"
          "''read error''" "replicate 65536 (CHR ''a'') @ [LF]" None]
  note t3 = replay_skips_and_errors [of ?envs 3 "[''SET a b'']"
          "NewRedisStore" "''EXPIRE k v soon''" "Opened [''SET a b''] (Some ''read error'')"
          "''read error''" "''SET a b'' @ [LF]" "Some ''read error''"]
  note t4 = replay_skips_and_errors [of ?envs 0 "[''SET a b'']"
          "NewRedisStore" "''EXIT x''" "Opened [''SET a b''] (Some ''read error'')"
          "''read error''" "''SET a b'' @ [LF]" "Some ''read error''"]
  from t2 lg have g: "reply_of (loadAOF ?envs
        (read_file (replicate 65536 (CHR ''a'') @ [LF]) None) NewRedisStore) \<noteq> Some None"
    by blast
  have rest: "\<not> recognized (hd (Split ''set k v'' SP))
   \<and> length (Split ''garbage'' SP) < 2
   \<and> 2 \<le> length (Split ''EXIT x'' SP) \<and> hd (Split ''EXIT x'' SP) = ''EXIT''
   \<and> loadAOF ?envs
        (Opened ['''', ''garbage'', ''set k v'', ''EXPIRE k v soon'', ''SET a b''] None)
        NewRedisStore
      = Returns None \<lparr>data = [''a'' \<mapsto> \<lparr>value' = ''b'', expiration = 0\<rparr>], listData = Map.empty,
                      aof = [], writeAOFEnabled = True\<rparr>
   \<and> loadAOF_loop ?envs 0 [''EXIT x'', ''SET a b''] NewRedisStore = Exit NewRedisStore
   \<and> reply_of (loadAOF ?envs
        (Opened [''SET a b''] (Some ''read error'')) NewRedisStore) = Some (Some ''read error'')
   \<and> reply_of (loadAOF ?envs
        (read_file (''SET a b'' @ [LF]) (Some ''read error'')) NewRedisStore)
      = Some (Some ''read error'')"
    using t1 t3 t4
    by (simp add: loadAOF_def read_file_def Split_def recognized_def processCommand_def Set_def
          NewRedisStore_def Let_def Atoi_def digit_of_def dropCR_def)
  from rest sk lg g show ?thesis by blast
qed

text \<open>
  C8 as stated fails. A file of one line of 65536 bytes is read to its end, and
  \<open>loadAOF\<close> returns an error. A line \<^verbatim>\<open>EXIT x\<close> ends the process and a line
  \<^verbatim>\<open>HMSET k f\<close> panics: the replay stops at either, and the line \<^verbatim>\<open>SET a b\<close> after it
  is not applied.
\<close>

theorem replay_stops_on_readable_file:
  "(let envs = (\<lambda>i. \<lparr>now = 5, range_order = (\<lambda>m. m)\<rparr>)
    in loadAOF envs (read_file (replicate 65536 (CHR ''a'') @ [LF]) None) NewRedisStore
         = Returns (Some ''bufio.Scanner: token too long'')
             (NewRedisStore\<lparr>writeAOFEnabled := True\<rparr>)
       \<and> loadAOF envs (read_file (''EXIT x'' @ [LF] @ ''SET a b'' @ [LF]) None) NewRedisStore
         = Exit NewRedisStore
       \<and> loadAOF envs (read_file (''HMSET k f'' @ [LF] @ ''SET a b'' @ [LF]) None) NewRedisStore
         = Panic NewRedisStore)"
proof -
  let ?envs = "\<lambda>i::nat. \<lparr>now = 5, range_order = (\<lambda>m. m)\<rparr>"
  have "loadAOF ?envs (read_file (replicate 65536 (CHR ''a'') @ [LF]) None) NewRedisStore
         = Returns (Some ''bufio.Scanner: token too long'')
             (NewRedisStore\<lparr>writeAOFEnabled := True\<rparr>)"
    using long_record_stops_replay [of "replicate 65536 (CHR ''a'')" ?envs "[]" NewRedisStore]
    by simp
  moreover have "loadAOF ?envs (read_file (''EXIT x'' @ [LF] @ ''SET a b'' @ [LF]) None) NewRedisStore
         = Exit NewRedisStore"
    by (simp add: loadAOF_def read_file_def Split_def processCommand_def NewRedisStore_def
          dropCR_def)
  moreover have "loadAOF ?envs (read_file (''HMSET k f'' @ [LF] @ ''SET a b'' @ [LF]) None) NewRedisStore
         = Panic NewRedisStore"
    by (simp add: loadAOF_def read_file_def Split_def processCommand_def NewRedisStore_def
          dropCR_def)
  ultimately show ?thesis by (simp add: Let_def)
qed

section \<open>Replay of the log a store wrote\<close>

lemma split_acc_last: "sep \<notin> set a \<Longrightarrow> split_acc sep acc a = [rev acc @ a]"
  by (induction a arbitrary: acc) auto

lemma split_acc_piece:
  "sep \<notin> set a \<Longrightarrow> split_acc sep acc (a @ sep # rest) = (rev acc @ a) # split_acc sep [] rest"
  by (induction a arbitrary: acc) auto

lemma Split_2: "SP \<notin> set c \<Longrightarrow> SP \<notin> set k \<Longrightarrow>
  Split (aof_line c [k]) SP = [c, k]"
  by (simp add: Split_def aof_line_def split_acc_piece split_acc_last)

lemma Split_3: "SP \<notin> set c \<Longrightarrow> SP \<notin> set k \<Longrightarrow> SP \<notin> set v \<Longrightarrow>
  Split (aof_line c [k, v]) SP = [c, k, v]"
  by (simp add: Split_def aof_line_def split_acc_piece split_acc_last)

lemma Split_4: "SP \<notin> set c \<Longrightarrow> SP \<notin> set k \<Longrightarrow> SP \<notin> set f \<Longrightarrow> SP \<notin> set v \<Longrightarrow>
  Split (aof_line c [k, f, v]) SP = [c, k, f, v]"
  by (simp add: Split_def aof_line_def split_acc_piece split_acc_last)

lemma record_ok_1: "LF \<notin> set c \<Longrightarrow> clean k \<Longrightarrow> record_ok (aof_line c [k] @ [LF])"
  unfolding record_ok_def
  by (rule exI [of _ "aof_line c [k]"]) (auto simp: clean_def dropCR_def aof_line_def)

lemma record_ok_2: "LF \<notin> set c \<Longrightarrow> clean k \<Longrightarrow> clean v \<Longrightarrow>
   record_ok (aof_line c [k, v] @ [LF])"
  unfolding record_ok_def
  by (rule exI [of _ "aof_line c [k, v]"]) (auto simp: clean_def dropCR_def aof_line_def)

lemma record_ok_3: "LF \<notin> set c \<Longrightarrow> clean k \<Longrightarrow> clean f \<Longrightarrow> clean v \<Longrightarrow>
   record_ok (aof_line c [k, f, v] @ [LF])"
  unfolding record_ok_def
  by (rule exI [of _ "aof_line c [k, f, v]"]) (auto simp: clean_def dropCR_def aof_line_def)

lemma scan_acc_line:
  "LF \<notin> set l \<Longrightarrow> length acc + length l \<le> 65535 \<Longrightarrow>
   scan_acc acc (l @ LF # rest) =
     (case scan_acc [] rest of (ls, long) \<Rightarrow> (dropCR (rev acc @ l) # ls, long))"
  by (induction l arbitrary: acc) auto

lemma scan_records:
  "\<forall>rec\<in>set recs. record_ok rec \<and> length rec \<le> 65536 \<Longrightarrow>
   scan_acc [] (concat recs) = (map butlast recs, False)"
proof (induction recs)
  case Nil
  then show ?case by simp
next
  case (Cons rec recs)
  then obtain l where l: "rec = l @ [LF]" "LF \<notin> set l" "dropCR l = l" "length l \<le> 65535"
    by (auto simp: record_ok_def)
  from Cons have "scan_acc [] (concat recs) = (map butlast recs, False)" by simp
  with l show ?case
    using scan_acc_line [of l "[]" "concat recs"] by simp
qed


lemma writeAOF_on:
  "writeAOFEnabled r \<Longrightarrow> writeAOF c args r = r\<lparr>aof := aof r @ [aof_line c args @ [LF]]\<rparr>"
  by (simp add: writeAOF_def aof_line_def)

lemma valid_env_single: "valid_env e \<Longrightarrow> range_order e [p] = [p]"
proof -
  assume "valid_env e"
  then have "mset (range_order e [p]) = {#p#}" by (simp add: valid_env_def)
  then show ?thesis by simp
qed

lemma replay_SET:
  assumes "\<not> writeAOFEnabled t" "clean k" "clean v"
  shows "loadAOF_loop envs i (aof_line ''SET'' [k, v] # rest) t =
         loadAOF_loop envs (Suc i) rest (t\<lparr>data := (data t)(k \<mapsto> \<lparr>value' = v, expiration = 0\<rparr>)\<rparr>)"
proof -
  from assms have "Split (aof_line ''SET'' [k, v]) SP = [''SET'', k, v]"
    by (intro Split_3) (simp_all add: clean_def)
  with assms(1) show ?thesis by (simp add: processCommand_def Set_def)
qed

lemma replay_DEL:
  assumes "\<not> writeAOFEnabled t" "clean k"
  shows "loadAOF_loop envs i (aof_line ''DEL'' [k] # rest) t =
         loadAOF_loop envs (Suc i) rest (t\<lparr>data := (data t)(k := None)\<rparr>)"
proof -
  from assms have "Split (aof_line ''DEL'' [k]) SP = [''DEL'', k]"
    by (intro Split_2) (simp_all add: clean_def)
  with assms(1) show ?thesis by (simp add: processCommand_def Del_def)
qed

lemma replay_HMSET:
  assumes "clean key" "clean f" "clean v" "valid_env (envs i)"
  shows "loadAOF_loop envs i (aof_line ''HMSET'' [key, f, v] # rest) t =
         loadAOF_loop envs (Suc i) rest (HMSet_step key (f, v) t)"
proof -
  from assms have "Split (aof_line ''HMSET'' [key, f, v]) SP = [''HMSET'', key, f, v]"
    by (intro Split_4) (simp_all add: clean_def)
  with assms(4) show ?thesis
    by (simp add: processCommand_def HMSet_def valid_env_single)
qed

lemma replay_fold:
  assumes "clean key" "\<forall>i. valid_env (envs i)"
  shows "\<forall>p\<in>set ps. clean (fst p) \<and> clean (snd p) \<Longrightarrow>
     loadAOF_loop envs i (map (\<lambda>p. aof_line ''HMSET'' [key, fst p, snd p]) ps @ rest) t =
     loadAOF_loop envs (i + length ps) rest (fold (HMSet_step key) ps t)"
proof (induction ps arbitrary: i t)
  case Nil
  then show ?case by simp
next
  case (Cons p ps)
  have "loadAOF_loop envs i (aof_line ''HMSET'' [key, fst p, snd p] #
           (map (\<lambda>p. aof_line ''HMSET'' [key, fst p, snd p]) ps @ rest)) t =
        loadAOF_loop envs (Suc i)
           (map (\<lambda>p. aof_line ''HMSET'' [key, fst p, snd p]) ps @ rest) (HMSet_step key (fst p, snd p) t)"
    using assms Cons.prems by (intro replay_HMSET) simp_all
  also have "\<dots> = loadAOF_loop envs (Suc i + length ps) rest
                     (fold (HMSet_step key) ps (HMSet_step key (fst p, snd p) t))"
    using Cons.prems by (intro Cons.IH) simp
  finally show ?case by simp
qed

lemma live_fold:
  "writeAOFEnabled s \<Longrightarrow>
   aof (fold (HMSet_step key) ps s) =
     aof s @ map (\<lambda>p. aof_line ''HMSET'' [key, fst p, snd p] @ [LF]) ps"
proof (induction ps arbitrary: s)
  case Nil
  then show ?case by simp
next
  case (Cons p ps)
  have "writeAOFEnabled (HMSet_step key p s)" using Cons.prems by simp
  from Cons.IH [OF this] Cons.prems show ?case
    by (simp add: HMSet_step_def writeAOF_on)
qed

lemma set_update_subset: "set (AList.update k v al) \<subseteq> insert (k, v) (set al)"
  by (induction al) auto

lemma hmset_values_clean:
  "hmset_values xs acc = Some vals \<Longrightarrow> list_all clean xs \<Longrightarrow>
   \<forall>p\<in>set acc. clean (fst p) \<and> clean (snd p) \<Longrightarrow>
   \<forall>p\<in>set vals. clean (fst p) \<and> clean (snd p)"
proof (induction xs acc rule: hmset_values.induct)
  case (3 f v rest vals')
  have "\<forall>p\<in>set (AList.update f v vals'). clean (fst p) \<and> clean (snd p)"
    using 3(3,4) set_update_subset [of f v vals'] by auto
  with 3 show ?case by simp
qed simp_all

lemma without_expirations_upd [simp]:
  "without_expirations (m(k \<mapsto> sv)) = (without_expirations m)(k \<mapsto> sv\<lparr>expiration := 0\<rparr>)"
  "without_expirations (m(k := None)) = (without_expirations m)(k := None)"
  "without_expirations Map.empty = Map.empty"
  by (auto simp: without_expirations_def)

lemma without_expirations_fold_put_field:
  "without_expirations (fold (put_field key) ps m) = fold (put_field key) ps (without_expirations m)"
  by (induction ps arbitrary: m) (simp_all add: put_field_def)

lemma exec_step:
  assumes ok: "valid_env e" "list_all clean (Args cmd)"
    and ex: "processCommand e cmd s = Returns x s'"
    and on: "writeAOFEnabled s" and off: "\<not> writeAOFEnabled t"
    and d: "data t = without_expirations (data s)" and envs: "\<forall>i. valid_env (envs i)"
  shows "\<exists>recs t'. simulates envs s s' t recs t'"
proof -
  consider
      (set) "Name cmd = ''SET''" "2 \<le> length (Args cmd)"
    | (del) "Name cmd = ''DEL''" "length (Args cmd) = 1"
    | (hmset) "Name cmd = ''HMSET''" "2 \<le> length (Args cmd)"
    | (expire) seconds where "Name cmd = ''EXPIRE''" "3 \<le> length (Args cmd)"
        "Atoi (Args cmd ! 2) = Some seconds"
    | (other) "s' = s"
    using ex
    by (auto simp: processCommand_def split: if_splits prod.splits option.splits)
  then show ?thesis
  proof cases
    case set
    then obtain k v more where a: "Args cmd = k # v # more"
      by (cases "Args cmd"; cases "tl (Args cmd)") auto
    with ok(2) have c: "clean k" "clean v" by simp_all
    from set a ex have s': "s' = Set k \<lparr>value' = v, expiration = 0\<rparr> s"
      by (simp add: processCommand_def)
    let ?t' = "t\<lparr>data := (data t)(k \<mapsto> \<lparr>value' = v, expiration = 0\<rparr>)\<rparr>"
    have l: "loadAOF_loop envs i (aof_line ''SET'' [k, v] # rest) t =
             loadAOF_loop envs (Suc i) rest ?t'" for i rest
      by (rule replay_SET [OF off c])
    have "simulates envs s s' t [aof_line ''SET'' [k, v] @ [LF]] ?t'"
      using s' on off d c l
      by (simp del: loadAOF_loop.simps(2) add: simulates_def Set_def writeAOF_on record_ok_2)
    then show ?thesis by blast
  next
    case del
    then obtain k where a: "Args cmd = [k]"
      by (cases "Args cmd") auto
    with ok(2) have c: "clean k" by simp
    from del a ex have s': "s' = Del k s"
      by (simp add: processCommand_def)
    let ?t' = "t\<lparr>data := (data t)(k := None)\<rparr>"
    have l: "loadAOF_loop envs i (aof_line ''DEL'' [k] # rest) t =
             loadAOF_loop envs (Suc i) rest ?t'" for i rest
      by (rule replay_DEL [OF off c])
    have "simulates envs s s' t [aof_line ''DEL'' [k] @ [LF]] ?t'"
      using s' on off d c l
      by (simp del: loadAOF_loop.simps(2) add: simulates_def Del_def writeAOF_on record_ok_1)
    then show ?thesis by blast
  next
    case hmset
    then obtain key more where a: "Args cmd = key # more"
      by (cases "Args cmd") auto
    from hmset a ex obtain vals where v: "hmset_values more [] = Some vals"
      and s': "s' = HMSet e key vals s"
      by (auto simp: processCommand_def split: option.splits)
    from a ok(2) have ck: "clean key" and cm: "list_all clean more" by simp_all
    let ?ps = "range_order e vals"
    from hmset_values_clean [OF v cm] ok(1)
    have cp: "\<forall>p\<in>set ?ps. clean (fst p) \<and> clean (snd p)"
      by (simp add: valid_env_set)
    let ?recs = "map (\<lambda>p. aof_line ''HMSET'' [key, fst p, snd p] @ [LF]) ?ps"
    let ?t' = "fold (HMSet_step key) ?ps t"
    have r: "list_all record_ok ?recs"
      using cp ck by (simp add: list_all_iff record_ok_3)
    have m: "map butlast ?recs = map (\<lambda>p. aof_line ''HMSET'' [key, fst p, snd p]) ?ps"
      by simp
    have l: "loadAOF_loop envs i (map butlast ?recs @ rest) t =
             loadAOF_loop envs (i + length ?recs) rest ?t'" for i rest
      unfolding m using replay_fold [OF ck envs cp] by simp
    have "simulates envs s s' t ?recs ?t'"
      unfolding simulates_def
      using s' on off d r l
      by (simp add: HMSet_def live_fold data_fold_HMSet_step fold_HMSet_step_frame
            without_expirations_fold_put_field)
    then show ?thesis by blast
  next
    case expire
    then obtain k v a more where a: "Args cmd = k # v # a # more"
      by (cases "Args cmd"; cases "tl (Args cmd)"; cases "tl (tl (Args cmd))") auto
    with ok(2) have c: "clean k" "clean v" by simp_all
    from expire a ex
    have s': "s' = SetWithExpiration (now e) k v (seconds_duration seconds) s"
      by (simp add: processCommand_def)
    let ?t' = "t\<lparr>data := (data t)(k \<mapsto> \<lparr>value' = v, expiration = 0\<rparr>)\<rparr>"
    have l: "loadAOF_loop envs i (aof_line ''SET'' [k, v] # rest) t =
             loadAOF_loop envs (Suc i) rest ?t'" for i rest
      by (rule replay_SET [OF off c])
    have "simulates envs s s' t [aof_line ''SET'' [k, v] @ [LF]] ?t'"
      using s' on off d c l
      by (simp del: loadAOF_loop.simps(2)
            add: simulates_def SetWithExpiration_def writeAOF_on record_ok_2)
    then show ?thesis by blast
  next
    case other
    have "simulates envs s s' t [] t"
      using other on off d by (simp add: simulates_def)
    then show ?thesis by blast
  qed
qed

lemma simulates_trans:
  assumes "simulates envs s s' t recs t'" "simulates envs s' s'' t' recs' t''"
  shows "simulates envs s s'' t (recs @ recs') t''"
  using assms by (simp add: simulates_def add.assoc)

lemma run_simulated:
  assumes envs: "\<forall>i. valid_env (envs i)"
  shows "list_all ok_op ops \<Longrightarrow> run ops s = Some s' \<Longrightarrow> writeAOFEnabled s \<Longrightarrow>
         \<not> writeAOFEnabled t \<Longrightarrow> data t = without_expirations (data s) \<Longrightarrow>
         \<exists>recs t'. simulates envs s s' t recs t'"
proof (induction ops arbitrary: s t)
  case Nil
  then have "simulates envs s s' t [] t" by (simp add: simulates_def)
  then show ?case by blast
next
  case (Cons op ops)
  show ?case
  proof (cases op)
    case (Exec e cmd)
    with Cons.prems obtain x s1 where p: "processCommand e cmd s = Returns x s1"
      and r: "run ops s1 = Some s'"
      by (auto split: outcome.splits)
    from Cons.prems Exec have ok: "valid_env e" "list_all clean (Args cmd)"
      by simp_all
    from exec_step [OF ok p Cons.prems(3,4,5) envs]
    obtain recs t1 where s1: "simulates envs s s1 t recs t1" by blast
    then have "writeAOFEnabled s1" "\<not> writeAOFEnabled t1"
      "data t1 = without_expirations (data s1)"
      by (simp_all add: simulates_def)
    from Cons.IH [OF _ r this] Cons.prems(1)
    obtain recs' t' where "simulates envs s1 s' t1 recs' t'" by auto
    from simulates_trans [OF s1 this] show ?thesis by blast
  next
    case (Push key v)
    let ?s1 = "ListPush key v s"
    from Cons.prems Push have r: "run ops ?s1 = Some s'" by simp
    have "writeAOFEnabled ?s1" "data t = without_expirations (data ?s1)"
      using Cons.prems by (simp_all add: ListPush_def)
    from Cons.IH [OF _ r this(1) Cons.prems(4) this(2)] Cons.prems(1)
    obtain recs t' where "simulates envs ?s1 s' t recs t'" by auto
    then have "simulates envs s s' t recs t'"
      by (simp add: simulates_def ListPush_def)
    then show ?thesis by blast
  next
    case (Pop key)
    let ?s1 = "snd (ListPop key s)"
    from Cons.prems Pop have r: "run ops ?s1 = Some s'" by simp
    have "writeAOFEnabled ?s1" "data t = without_expirations (data ?s1)"
      using Cons.prems by (simp_all add: ListPop_def)
    from Cons.IH [OF _ r this(1) Cons.prems(4) this(2)] Cons.prems(1)
    obtain recs t' where "simulates envs ?s1 s' t recs t'" by auto
    then have "simulates envs s s' t recs t'"
      by (simp add: simulates_def ListPop_def)
    then show ?thesis by blast
  qed
qed

text \<open>
  \<open>NewRedisStore\<close> leaves the log switched off; \<^verbatim>\<open>main\<close> then calls \<open>loadAOF\<close> on
  the file that \<open>NewRedisStore\<close> has created, which switches it on.
\<close>

lemma startup_enables_log:
  "loadAOF envs (read_file [] None) NewRedisStore
     = Returns None (NewRedisStore\<lparr>writeAOFEnabled := True\<rparr>)"
  by (simp add: loadAOF_def read_file_def NewRedisStore_def)

text \<open>
  Why the arguments must be free of the delimiters, and the records short: a space in
  a key moves the rest of the key into the value, a carriage return at the end of a
  value is dropped by the scanner, and a line beyond the buffer of the scanner ends
  the replay with an error (\<open>long_record_stops_replay\<close> above).
\<close>

lemma unclean_argument_breaks_replay:
  "(let e = \<lparr>now = 100, range_order = (\<lambda>m. m)\<rparr>;
        start = NewRedisStore\<lparr>writeAOFEnabled := True\<rparr>;
        s1 = store_of (processCommand e \<lparr>Name = ''SET'', Args = [''a b'', ''c'']\<rparr> start);
        r1 = store_of (loadAOF (\<lambda>i. e) (read_file (concat (aof s1)) None) NewRedisStore);
        s2 = store_of (processCommand e \<lparr>Name = ''SET'', Args = [''k'', ''v'' @ [CR]]\<rparr> start);
        r2 = store_of (loadAOF (\<lambda>i. e) (read_file (concat (aof s2)) None) NewRedisStore)
    in Get 100 ''a b'' s1 = (''c'', True) \<and> Get 100 ''a b'' r1 = ('''', False)
       \<and> Get 100 ''a'' r1 = (''b'', True)
       \<and> Get 100 ''k'' s2 = (''v'' @ [CR], True) \<and> Get 100 ''k'' r2 = (''v'', True))"
  by (simp add: Let_def processCommand_def Set_def writeAOF_def NewRedisStore_def read_file_def
        loadAOF_def Split_def dropCR_def Get_def)

lemma HMGet_without_expirations:
  assumes "data r' = without_expirations (data r)"
  shows "HMGet key flds r' = HMGet key flds r"
proof -
  have "fold (\<lambda>field result.
               case data r' (key @ ''.'' @ field) of
                 Some sv \<Rightarrow> AList.update field (value' sv) result
               | None \<Rightarrow> result) flds acc =
        fold (\<lambda>field result.
               case data r (key @ ''.'' @ field) of
                 Some sv \<Rightarrow> AList.update field (value' sv) result
               | None \<Rightarrow> result) flds acc" for acc
    by (induction flds arbitrary: acc)
       (simp_all add: assms without_expirations_def split: option.splits)
  then show ?thesis by (simp add: HMGet_def)
qed

text \<open>Without a command named \<^verbatim>\<open>EXPIRE\<close> no entry gets an expiration.\<close>

lemma processCommand_plain:
  "Name cmd \<noteq> ''EXPIRE'' \<Longrightarrow> without_expirations (data r) = data r \<Longrightarrow>
   without_expirations (data (store_of (processCommand e cmd r))) =
     data (store_of (processCommand e cmd r))"
  by (auto simp: processCommand_def Set_def Del_def HMSet_def data_fold_HMSet_step
        without_expirations_fold_put_field split: option.splits prod.splits)

lemma run_plain:
  "list_all plain_op ops \<Longrightarrow> run ops r = Some s \<Longrightarrow>
   without_expirations (data r) = data r \<Longrightarrow> without_expirations (data s) = data s"
proof (induction ops arbitrary: r)
  case Nil
  then show ?case by simp
next
  case (Cons op ops)
  show ?case
  proof (cases op)
    case (Exec e cmd)
    with Cons.prems obtain x r1 where p: "processCommand e cmd r = Returns x r1"
      and q: "run ops r1 = Some s"
      by (auto split: outcome.splits)
    from Cons.prems Exec have "Name cmd \<noteq> ''EXPIRE''" by simp
    from processCommand_plain [OF this Cons.prems(3), of e] p
    have "without_expirations (data r1) = data r1" by simp
    from Cons.IH [OF _ q this] Cons.prems(1) show ?thesis by simp
  next
    case (Push key v)
    with Cons.prems have q: "run ops (ListPush key v r) = Some s" by simp
    have "without_expirations (data (ListPush key v r)) = data (ListPush key v r)"
      using Cons.prems(3) by (simp add: ListPush_def)
    from Cons.IH [OF _ q this] Cons.prems(1) show ?thesis by simp
  next
    case (Pop key)
    with Cons.prems have q: "run ops (snd (ListPop key r)) = Some s" by simp
    have "without_expirations (data (snd (ListPop key r))) = data (snd (ListPop key r))"
      using Cons.prems(3) by (simp add: ListPop_def)
    from Cons.IH [OF _ q this] Cons.prems(1) show ?thesis by simp
  qed
qed

text \<open>
  C1, as the code has it. Take any sequence of calls (commands, \<^verbatim>\<open>EXPIRE\<close> included,
  whose arguments have no space or line feed and do not end in a carriage return, and
  list pushes and pops) that runs on a new store with the log switched on, with no
  record longer than the scanner's buffer. Replaying the file it wrote into a new store
  returns without error and gives the same keys with the same values, each without
  expiration. So \<open>HMGet\<close> agrees on every key, \<open>Get\<close> agrees on every key that is
  absent or has no expiration and whenever the first store finds the key, and the
  replayed store finds every key that has an entry, at every time. If no command of
  the sequence is named \<^verbatim>\<open>EXPIRE\<close> the scalar maps are equal and \<open>Get\<close> agrees on
  every key at every time. The lists are not in the log: every list of the replayed
  store is empty, so \<open>ListPop\<close> agrees exactly on the keys whose list is empty.
\<close>

theorem replay_restores_scalars:
  assumes "list_all ok_op ops" and "\<forall>i. valid_env (envs i)"
    and "run ops (NewRedisStore\<lparr>writeAOFEnabled := True\<rparr>) = Some s"
    and "\<forall>rec\<in>set (aof s). length rec \<le> 65536"
  shows "\<exists>s'. loadAOF envs (read_file (concat (aof s)) None) NewRedisStore = Returns None s'
            \<and> data s' = without_expirations (data s) \<and> listData s' = Map.empty
            \<and> (\<forall>key flds. HMGet key flds s' = HMGet key flds s)
            \<and> (\<forall>t key. data s key = None \<or> (\<exists>sv. data s key = Some sv \<and> expiration sv = 0)
                  \<longrightarrow> Get t key s' = Get t key s)
            \<and> (\<forall>t key. snd (Get t key s) \<longrightarrow> Get t key s' = Get t key s)
            \<and> (\<forall>t key sv. data s key = Some sv \<longrightarrow> Get t key s' = (value' sv, True))
            \<and> (list_all plain_op ops \<longrightarrow>
                  data s' = data s \<and> (\<forall>t key. Get t key s' = Get t key s))
            \<and> (\<forall>key. fst (ListPop key s') = ('''', False))
            \<and> (\<forall>key. fst (ListPop key s') = fst (ListPop key s) \<longleftrightarrow> list_at s key = [])"
proof -
  let ?s0 = "NewRedisStore\<lparr>writeAOFEnabled := True\<rparr>"
  let ?t0 = "NewRedisStore\<lparr>writeAOFEnabled := False\<rparr>"
  have "\<exists>recs t'. simulates envs ?s0 s ?t0 recs t'"
    using assms(1,3) by (intro run_simulated [OF assms(2)]) (simp_all add: NewRedisStore_def)
  then obtain recs t' where sim: "simulates envs ?s0 s ?t0 recs t'" by blast
  then have a: "aof s = recs" and ok: "list_all record_ok recs"
    and d: "data t' = without_expirations (data s)" and ld: "listData t' = Map.empty"
    by (simp_all add: simulates_def NewRedisStore_def)
  from sim have "loadAOF_loop envs i (map butlast recs @ rest) ?t0 =
                 loadAOF_loop envs (i + length recs) rest t'" for i rest
    unfolding simulates_def by blast
  from this [of 0 "[]"] have l: "loadAOF_loop envs 0 (map butlast recs) ?t0 = Returns () t'"
    by simp
  from a ok assms(4) have "\<forall>rec\<in>set recs. record_ok rec \<and> length rec \<le> 65536"
    by (simp add: list_all_iff)
  from scan_records [OF this] a
  have "scan_acc [] (concat (aof s)) = (map butlast recs, False)" by simp
  then have f: "read_file (concat (aof s)) None = Opened (map butlast recs) None"
    by (simp add: read_file_def)
  let ?s' = "t'\<lparr>writeAOFEnabled := True\<rparr>"
  from l have "loadAOF envs (Opened (map butlast recs) None) NewRedisStore = Returns None ?s'"
    by (simp add: loadAOF_def)
  with f have 1: "loadAOF envs (read_file (concat (aof s)) None) NewRedisStore = Returns None ?s'"
    by simp
  have 2: "data ?s' = without_expirations (data s)" "listData ?s' = Map.empty"
    using d ld by simp_all
  have 3: "HMGet key flds ?s' = HMGet key flds s" for key flds
    by (simp add: HMGet_without_expirations 2)
  have 4: "Get t key ?s' = Get t key s"
    if "data s key = None \<or> (\<exists>sv. data s key = Some sv \<and> expiration sv = 0)" for t key
    using that by (auto simp: Get_def 2 without_expirations_def)
  have 5: "Get t key ?s' = Get t key s" if "snd (Get t key s)" for t key
    using that by (auto simp: Get_def 2 without_expirations_def split: option.splits if_splits)
  have 6: "Get t key ?s' = (value' sv, True)" if "data s key = Some sv" for t key sv
    using that by (simp add: Get_def 2 without_expirations_def)
  have 7: "data ?s' = data s \<and> (\<forall>t key. Get t key ?s' = Get t key s)" if "list_all plain_op ops"
  proof -
    from run_plain [OF that assms(3)] have "without_expirations (data s) = data s"
      by (simp add: NewRedisStore_def)
    with 2 have "data ?s' = data s" by simp
    then show ?thesis by (simp add: Get_def)
  qed
  have 8: "fst (ListPop key ?s') = ('''', False)" for key
    using ld by (simp add: ListPop_def list_at_def)
  have 9: "fst (ListPop key ?s') = fst (ListPop key s) \<longleftrightarrow> list_at s key = []" for key
    unfolding 8 by (auto simp: ListPop_def)
  from 1 2 3 4 5 6 7 8 9 show ?thesis
    by (intro exI [of _ ?s'] conjI allI impI) blast+
qed

theorem replay_restores_scalars_witness:
  "(let e = \<lparr>now = 100, range_order = rev\<rparr>;
        ops = [Exec e \<lparr>Name = ''SET'', Args = [''k'', ''v'']\<rparr>,
               Exec e \<lparr>Name = ''HMSET'', Args = [''h'', ''f'', ''1'', ''g'', ''2'']\<rparr>,
               Push ''q'' ''a'',
               Exec e \<lparr>Name = ''EXPIRE'', Args = [''x'', ''y'', ''5'']\<rparr>,
               Exec e \<lparr>Name = ''EXPIRE'', Args = [''x'', ''y'']\<rparr>,
               Exec e \<lparr>Name = ''DEL'', Args = [''k'']\<rparr>]
    in list_all ok_op ops \<and> (\<forall>i::nat. valid_env e)
       \<and> (\<exists>s. run ops (NewRedisStore\<lparr>writeAOFEnabled := True\<rparr>) = Some s
              \<and> aof s = [''SET k v'' @ [LF], ''HMSET h g 2'' @ [LF], ''HMSET h f 1'' @ [LF],
                          ''SET x y'' @ [LF], ''DEL k'' @ [LF]]
              \<and> (\<forall>rec\<in>set (aof s). length rec \<le> 65536)
              \<and> data s ''x'' = Some \<lparr>value' = ''y'', expiration = 5000000100\<rparr>
              \<and> data s ''h.f'' = Some \<lparr>value' = ''1'', expiration = 0\<rparr>
              \<and> (\<exists>s'. loadAOF (\<lambda>i. e) (read_file (concat (aof s)) None) NewRedisStore
                          = Returns None s'
                        \<and> data s' = without_expirations (data s) \<and> listData s' = Map.empty
                        \<and> Get 9000000000 ''x'' s' = (''y'', True)
                        \<and> Get 9000000000 ''h.f'' s' = Get 9000000000 ''h.f'' s)))"
proof -
  define e where "e = \<lparr>now = 100, range_order = rev\<rparr>"
  define ops where "ops = [Exec e \<lparr>Name = ''SET'', Args = [''k'', ''v'']\<rparr>,
               Exec e \<lparr>Name = ''HMSET'', Args = [''h'', ''f'', ''1'', ''g'', ''2'']\<rparr>,
               Push ''q'' ''a'',
               Exec e \<lparr>Name = ''EXPIRE'', Args = [''x'', ''y'', ''5'']\<rparr>,
               Exec e \<lparr>Name = ''EXPIRE'', Args = [''x'', ''y'']\<rparr>,
               Exec e \<lparr>Name = ''DEL'', Args = [''k'']\<rparr>]"
  define s where "s = the (run ops (NewRedisStore\<lparr>writeAOFEnabled := True\<rparr>))"
  note defs = s_def ops_def e_def processCommand_def Set_def Del_def HMSet_def HMSet_step_def
          SetWithExpiration_def Atoi_def digit_of_def seconds_duration_def
          writeAOF_def ListPush_def NewRedisStore_def
  have v: "valid_env e" by (simp add: e_def valid_env_def)
  then have h2: "\<forall>i::nat. valid_env ((\<lambda>i. e) i)" by simp
  have h1: "list_all ok_op ops" using v by (simp add: ops_def clean_def)
  have h3: "run ops (NewRedisStore\<lparr>writeAOFEnabled := True\<rparr>) = Some s"
    by (simp add: defs)
  have a: "aof s = [''SET k v'' @ [LF], ''HMSET h g 2'' @ [LF], ''HMSET h f 1'' @ [LF],
                          ''SET x y'' @ [LF], ''DEL k'' @ [LF]]"
    by (simp add: defs)
  then have h4: "\<forall>rec\<in>set (aof s). length rec \<le> 65536" by simp
  have x: "data s ''x'' = Some \<lparr>value' = ''y'', expiration = 5000000100\<rparr>"
    by (simp add: defs)
  have y: "data s ''h.f'' = Some \<lparr>value' = ''1'', expiration = 0\<rparr>"
    by (simp add: defs)
  from replay_restores_scalars [OF h1 h2 h3 h4]
  obtain s' where r: "loadAOF (\<lambda>i. e) (read_file (concat (aof s)) None) NewRedisStore
                          = Returns None s'"
     "data s' = without_expirations (data s)" "listData s' = Map.empty"
     "\<forall>t key. data s key = None \<or> (\<exists>sv. data s key = Some sv \<and> expiration sv = 0)
                  \<longrightarrow> Get t key s' = Get t key s"
     "\<forall>t key sv. data s key = Some sv \<longrightarrow> Get t key s' = (value' sv, True)"
    by blast
  from r(5) x have gx: "Get 9000000000 ''x'' s' = (''y'', True)" by fastforce
  from r(4) y have gy: "Get 9000000000 ''h.f'' s' = Get 9000000000 ''h.f'' s" by fastforce
  from r(1,2,3) gx gy h1 v h3 a h4 x y
  show ?thesis unfolding Let_def e_def [symmetric] ops_def [symmetric] by blast
qed

text \<open>
  C1 as stated fails. \<^verbatim>\<open>EXPIRE k v 0\<close> at time 100 is logged as \<^verbatim>\<open>SET k v\<close>: at
  time 200 the first store does not find \<^verbatim>\<open>k\<close> and the replayed store does. A pushed
  element is in no record: the first store pops it and the replayed store has nothing
  to pop.
\<close>

theorem replay_loses_expiration_and_lists:
  "(let e = \<lparr>now = 100, range_order = (\<lambda>m. m)\<rparr>;
        start = NewRedisStore\<lparr>writeAOFEnabled := True\<rparr>;
        s1 = store_of (processCommand e \<lparr>Name = ''EXPIRE'', Args = [''k'', ''v'', ''0'']\<rparr> start);
        r1 = store_of (loadAOF (\<lambda>i. e) (read_file (concat (aof s1)) None) NewRedisStore);
        s2 = ListPush ''q'' ''a'' start;
        r2 = store_of (loadAOF (\<lambda>i. e) (read_file (concat (aof s2)) None) NewRedisStore)
    in run [Exec e \<lparr>Name = ''EXPIRE'', Args = [''k'', ''v'', ''0'']\<rparr>] start = Some s1
       \<and> Get 200 ''k'' s1 = ('''', False) \<and> Get 200 ''k'' r1 = (''v'', True)
       \<and> run [Push ''q'' ''a''] start = Some s2
       \<and> fst (ListPop ''q'' s2) = (''a'', True) \<and> fst (ListPop ''q'' r2) = ('''', False))"
  by (simp add: Let_def processCommand_def Atoi_def digit_of_def seconds_duration_def
        SetWithExpiration_def Set_def writeAOF_def NewRedisStore_def read_file_def loadAOF_def
        Split_def dropCR_def Get_def ListPush_def ListPop_def list_at_def)

section \<open>The order of a map walk\<close>

lemma hmset_values_distinct:
  "hmset_values xs acc = Some vals \<Longrightarrow> distinct (map fst acc) \<Longrightarrow> distinct (map fst vals)"
  by (induction xs acc rule: hmset_values.induct) (simp_all add: distinct_update)

lemma put_field_commute:
  "fst x \<noteq> fst y \<Longrightarrow> put_field key x \<circ> put_field key y = put_field key y \<circ> put_field key x"
  by (auto simp: put_field_def fun_eq_iff)

lemma fold_put_field_perm:
  assumes "distinct (map fst ps)" "mset ps = mset qs"
  shows "fold (put_field key) ps m = fold (put_field key) qs m"
proof -
  have "put_field key x \<circ> put_field key y = put_field key y \<circ> put_field key x"
    if "x \<in> set ps" "y \<in> set ps" for x y
  proof (cases "x = y")
    case False
    with assms(1) that have "fst x \<noteq> fst y"
      by (metis distinct_map inj_onD)
    then show ?thesis by (rule put_field_commute)
  qed simp
  from fold_multiset_equiv [of ps "put_field key" qs, OF this assms(2)]
  show ?thesis by simp
qed

lemma aof_fold_HMSet_step:
  "aof (fold (HMSet_step key) ps s) =
     aof s @ (if writeAOFEnabled s
              then map (\<lambda>p. aof_line ''HMSET'' [key, fst p, snd p] @ [LF]) ps else [])"
  by (simp add: live_fold fold_HMSet_step_aof_off)

lemma processCommand_aof_extends:
  "\<exists>recs. aof (store_of (processCommand e cmd r)) = aof r @ recs"
  by (auto simp: processCommand_def Set_def SetWithExpiration_def Del_def HMSet_def
        writeAOF_def aof_fold_HMSet_step split: option.splits prod.splits)

lemma processCommand_same_clock:
  "now e1 = now e2 \<Longrightarrow> Name cmd \<noteq> ''HMSET'' \<Longrightarrow>
   Name cmd \<noteq> ''HMGET'' \<or> length (Args cmd) < 2 \<Longrightarrow>
   processCommand e1 cmd r = processCommand e2 cmd r"
  by (auto simp: processCommand_def split: option.splits)

lemma HMSet_perm:
  assumes "valid_env e1" "valid_env e2" "distinct (map fst vals)"
  shows "data (HMSet e1 key vals r) = data (HMSet e2 key vals r)"
    and "listData (HMSet e1 key vals r) = listData (HMSet e2 key vals r)"
    and "writeAOFEnabled (HMSet e1 key vals r) = writeAOFEnabled (HMSet e2 key vals r)"
    and "\<exists>recs1 recs2. aof (HMSet e1 key vals r) = aof r @ recs1
            \<and> aof (HMSet e2 key vals r) = aof r @ recs2 \<and> mset recs1 = mset recs2"
proof -
  from assms(1,2) have m: "mset (range_order e1 vals) = mset (range_order e2 vals)"
    by (simp add: valid_env_def)
  from assms have "distinct (map fst (range_order e1 vals))"
    by (simp add: valid_env_distinct)
  from fold_put_field_perm [OF this m]
  show "data (HMSet e1 key vals r) = data (HMSet e2 key vals r)"
    by (simp add: HMSet_def data_fold_HMSet_step)
  show "listData (HMSet e1 key vals r) = listData (HMSet e2 key vals r)"
    and "writeAOFEnabled (HMSet e1 key vals r) = writeAOFEnabled (HMSet e2 key vals r)"
    by (simp_all add: HMSet_def fold_HMSet_step_frame)
  let ?f = "\<lambda>p. aof_line ''HMSET'' [key, fst p, snd p] @ [LF]"
  let ?recs = "\<lambda>e. if writeAOFEnabled r then map ?f (range_order e vals) else []"
  have p: "mset (?recs e1) = mset (?recs e2)"
    using m by simp
  have a: "aof (HMSet e key vals r) = aof r @ ?recs e" for e
    by (simp add: HMSet_def aof_fold_HMSet_step)
  show "\<exists>recs1 recs2. aof (HMSet e1 key vals r) = aof r @ recs1
            \<and> aof (HMSet e2 key vals r) = aof r @ recs2 \<and> mset recs1 = mset recs2"
    using a [of e1] a [of e2] p
    by (intro exI [of _ "?recs e1"] exI [of _ "?recs e2"] conjI)
qed

text \<open>
  C3, as the code has it. Two executions of one command on one store, at the same
  clock reading and under any two orders in which \<^verbatim>\<open>range\<close> may walk a map, end with
  the same scalar map and the same lists and append the same records up to their
  order. The response is the same, except that of \<^verbatim>\<open>HMGET\<close>, which formats the same
  pairs in the order of the walk. For every command but \<^verbatim>\<open>HMSET\<close> and \<^verbatim>\<open>HMGET\<close> the
  two executions are equal.
\<close>

theorem dispatch_up_to_range_order:
  assumes "valid_env e1" "valid_env e2" "now e1 = now e2"
  shows "data (store_of (processCommand e1 cmd r)) = data (store_of (processCommand e2 cmd r))
    \<and> listData (store_of (processCommand e1 cmd r)) = listData (store_of (processCommand e2 cmd r))
    \<and> (\<exists>recs1 recs2. aof (store_of (processCommand e1 cmd r)) = aof r @ recs1
          \<and> aof (store_of (processCommand e2 cmd r)) = aof r @ recs2 \<and> mset recs1 = mset recs2)
    \<and> (Name cmd \<noteq> ''HMGET'' \<longrightarrow>
          reply_of (processCommand e1 cmd r) = reply_of (processCommand e2 cmd r))
    \<and> (Name cmd \<noteq> ''HMGET'' \<and> Name cmd \<noteq> ''HMSET'' \<longrightarrow>
          processCommand e1 cmd r = processCommand e2 cmd r)
    \<and> (\<exists>ps1 ps2. mset ps1 = mset ps2 \<and>
          (Name cmd = ''HMGET'' \<longrightarrow>
             (length (Args cmd) < 2 \<and> processCommand e1 cmd r = processCommand e2 cmd r) \<or>
             (reply_of (processCommand e1 cmd r)
                = Some (Sprint_v (concat (map (\<lambda>kv. [fst kv, snd kv]) ps1)))
              \<and> reply_of (processCommand e2 cmd r)
                = Some (Sprint_v (concat (map (\<lambda>kv. [fst kv, snd kv]) ps2))))))"
  (is "?D \<and> ?L \<and> ?A \<and> ?R \<and> ?E \<and> ?P")
proof -
  consider (hmset) "Name cmd = ''HMSET''" | (hmget) "Name cmd = ''HMGET''" "2 \<le> length (Args cmd)"
    | (other) "Name cmd \<noteq> ''HMSET''" "Name cmd \<noteq> ''HMGET'' \<or> length (Args cmd) < 2"
    by fastforce
  then show ?thesis
  proof cases
    case other
    from processCommand_same_clock [OF assms(3) other]
    have eq: "processCommand e1 cmd r = processCommand e2 cmd r" .
    from processCommand_aof_extends [of e2 cmd r] obtain recs
      where "aof (store_of (processCommand e2 cmd r)) = aof r @ recs" by blast
    with eq have ?A by auto
    moreover have ?P using eq other by (intro exI [of _ "[]"]) auto
    ultimately show ?thesis using eq by simp
  next
    case hmget
    let ?m = "HMGet (Args cmd ! 0) (tl (Args cmd)) r"
    have o: "processCommand e cmd r =
          Returns (Sprint_v (concat (map (\<lambda>kv. [fst kv, snd kv]) (range_order e ?m)))) r" for e
      using hmget by (simp add: processCommand_def)
    from assms have m: "mset (range_order e1 ?m) = mset (range_order e2 ?m)"
      by (simp add: valid_env_def)
    have ?P
      by (rule exI [of _ "range_order e1 ?m"], rule exI [of _ "range_order e2 ?m"])
         (simp add: o m)
    moreover have ?A using o by simp
    ultimately show ?thesis using o hmget by simp
  next
    case hmset
    have P: ?P by (intro exI [of _ "[]"]) (simp add: hmset)
    show ?thesis
    proof (cases "2 \<le> length (Args cmd)")
      case False
      with hmset have "processCommand e cmd r = Returns '''' r" for e
        by (simp add: processCommand_def)
      with P hmset show ?thesis by simp
    next
      case True
      show ?thesis
      proof (cases "hmset_values (tl (Args cmd)) []")
        case None
        with True hmset have "processCommand e cmd r = Panic r" for e
          by (simp add: processCommand_def)
        with P hmset show ?thesis by simp
      next
        case (Some vals)
        with True hmset have o: "processCommand e cmd r = Returns ''OK'' (HMSet e (Args cmd ! 0) vals r)" for e
          by (simp add: processCommand_def)
        from hmset_values_distinct [OF Some] have "distinct (map fst vals)" by simp
        from HMSet_perm [OF assms(1,2) this, of "Args cmd ! 0" r] P hmset
        show ?thesis unfolding o by simp
      qed
    qed
  qed
qed

theorem dispatch_up_to_range_order_witness:
  "(let e1 = \<lparr>now = 100, range_order = (\<lambda>m. m)\<rparr>; e2 = \<lparr>now = 100, range_order = rev\<rparr>;
        cmd = \<lparr>Name = ''HMSET'', Args = [''h'', ''f'', ''1'', ''g'', ''2'']\<rparr>;
        r = NewRedisStore\<lparr>writeAOFEnabled := True\<rparr>
    in valid_env e1 \<and> valid_env e2 \<and> now e1 = now e2
       \<and> data (store_of (processCommand e1 cmd r)) = data (store_of (processCommand e2 cmd r))
       \<and> reply_of (processCommand e1 cmd r) = Some ''OK''
       \<and> reply_of (processCommand e2 cmd r) = Some ''OK'')"
proof -
  define e1 where "e1 = \<lparr>now = 100, range_order = (\<lambda>m. m)\<rparr>"
  define e2 where "e2 = \<lparr>now = 100, range_order = rev\<rparr>"
  have v: "valid_env e1" "valid_env e2" "now e1 = now e2"
    by (simp_all add: e1_def e2_def valid_env_def)
  have r: "reply_of (processCommand e \<lparr>Name = ''HMSET'', Args = [''h'', ''f'', ''1'', ''g'', ''2'']\<rparr> r) = Some ''OK''" for e r
    by (simp add: processCommand_def)
  from dispatch_up_to_range_order [OF v, of "\<lparr>Name = ''HMSET'', Args = [''h'', ''f'', ''1'', ''g'', ''2'']\<rparr>"
         "NewRedisStore\<lparr>writeAOFEnabled := True\<rparr>"] v r
  show ?thesis unfolding Let_def e1_def [symmetric] e2_def [symmetric] by blast
qed

text \<open>
  C3 as stated fails: the order of \<^verbatim>\<open>range\<close> over a map is not fixed. Under two
  orders, \<^verbatim>\<open>HMSET h f 1 g 2\<close> on the same store writes its two records in different
  orders, and \<^verbatim>\<open>HMGET h f g\<close> on the same store answers with the pairs in different
  orders.
\<close>

theorem range_order_changes_reply_and_log:
  "(let e1 = \<lparr>now = 100, range_order = (\<lambda>m. m)\<rparr>; e2 = \<lparr>now = 100, range_order = rev\<rparr>;
        r0 = NewRedisStore\<lparr>writeAOFEnabled := True\<rparr>;
        hmset = \<lparr>Name = ''HMSET'', Args = [''h'', ''f'', ''1'', ''g'', ''2'']\<rparr>;
        hmget = \<lparr>Name = ''HMGET'', Args = [''h'', ''f'', ''g'']\<rparr>;
        r = store_of (processCommand e1 hmset r0)
    in valid_env e1 \<and> valid_env e2
       \<and> aof (store_of (processCommand e1 hmset r0)) = [''HMSET h f 1'' @ [LF], ''HMSET h g 2'' @ [LF]]
       \<and> aof (store_of (processCommand e2 hmset r0)) = [''HMSET h g 2'' @ [LF], ''HMSET h f 1'' @ [LF]]
       \<and> reply_of (processCommand e1 hmget r) = Some ''[f 1 g 2]''
       \<and> reply_of (processCommand e2 hmget r) = Some ''[g 2 f 1]'')"
  by (simp add: Let_def valid_env_def processCommand_def HMSet_def HMSet_step_def HMGet_def
        writeAOF_def NewRedisStore_def Sprint_v_def)

end
